theory Spec2Isabelle
  imports Complex_Main "HOL-Library.Multiset" "HOL-Library.Monad_Syntax"
begin

section \<open>Python lists\<close>

text \<open>
  A Python list is a HOL list; an index is an unbounded \<open>int\<close>.  A negative index counts
  from the end, and an index outside \<open>[-len, len)\<close> raises \<open>IndexError\<close>.  That is the only
  exception the sort engines can raise on lists of mutually comparable values, so a
  computation that may raise is an \<open>option\<close>: \<open>None\<close> is the raised \<open>IndexError\<close>,
  \<open>Some\<close> the value (or the updated list) of a run that completes.
\<close>

definition py_index :: "'a list \<Rightarrow> int \<Rightarrow> nat option" where
  "py_index xs i =
     (let n = int (length xs); j = (if i < 0 then n + i else i)
      in if 0 \<le> j \<and> j < n then Some (nat j) else None)"

definition py_get :: "'a list \<Rightarrow> int \<Rightarrow> 'a option" where
  "py_get xs i = do { k \<leftarrow> py_index xs i; Some (xs ! k) }"

definition py_set :: "'a list \<Rightarrow> int \<Rightarrow> 'a \<Rightarrow> 'a list option" where
  "py_set xs i v = do { k \<leftarrow> py_index xs i; Some (xs[k := v]) }"

section \<open>quickSort.py\<close>

text \<open>
  \<^verbatim>\<open>arr[i], arr[j] = arr[j], arr[i]\<close>: the right-hand side is read first (\<open>arr[j]\<close>, then
  \<open>arr[i]\<close>), then \<open>arr[i]\<close> and \<open>arr[j]\<close> are assigned in that order.
\<close>

definition swap :: "'a list \<Rightarrow> int \<Rightarrow> int \<Rightarrow> 'a list option" where
  "swap arr i j = do {
     x \<leftarrow> py_get arr j;
     y \<leftarrow> py_get arr i;
     arr1 \<leftarrow> py_set arr i x;
     py_set arr1 j y }"

text \<open>The \<^verbatim>\<open>for j in range(low, high)\<close> loop of \<^verbatim>\<open>partition\<close>, from the current \<open>j\<close>.\<close>

function partition_loop ::
  "'a::linorder list \<Rightarrow> 'a \<Rightarrow> int \<Rightarrow> int \<Rightarrow> int \<Rightarrow> ('a list \<times> int) option" where
  "partition_loop arr pivot i j high =
     (if j < high then do {
        x \<leftarrow> py_get arr j;
        if x < pivot then do {
          arr1 \<leftarrow> swap arr (i + 1) j;
          partition_loop arr1 pivot (i + 1) (j + 1) high }
        else partition_loop arr pivot i (j + 1) high }
      else Some (arr, i))"
  by pat_completeness auto
termination
  by (relation "measure (\<lambda>(arr, pivot, i, j, high). nat (high - j))") auto

declare partition_loop.simps [simp del]

definition partition :: "'a::linorder list \<Rightarrow> int \<Rightarrow> int \<Rightarrow> ('a list \<times> int) option" where
  "partition arr low high = do {
     pivot \<leftarrow> py_get arr high;
     (arr1, i) \<leftarrow> partition_loop arr pivot (low - 1) low high;
     arr2 \<leftarrow> swap arr1 (i + 1) high;
     Some (arr2, i + 1) }"

lemma partition_loop_index:
  "partition_loop arr pivot i j high = Some (arr', i') \<Longrightarrow> j \<le> high \<Longrightarrow>
   i \<le> i' \<and> i' - i \<le> high - j"
proof (induction arr pivot i j high arbitrary: arr' i' rule: partition_loop.induct)
  case (1 arr pivot i j high)
  show ?case
  proof (cases "j < high")
    case False
    with "1.prems" show ?thesis
      by (subst (asm) partition_loop.simps) simp
  next
    case True
    from "1.prems"(1) True obtain x where x: "py_get arr j = Some x"
      by (subst (asm) partition_loop.simps) (auto split: bind_splits)
    show ?thesis
    proof (cases "x < pivot")
      case lt: True
      from "1.prems"(1) True x lt obtain arr1 where
        a1: "swap arr (i + 1) j = Some arr1" and
        r: "partition_loop arr1 pivot (i + 1) (j + 1) high = Some (arr', i')"
        by (subst (asm) partition_loop.simps) (auto split: bind_splits)
      from "1.IH"(1)[OF True x lt a1 r] True show ?thesis by simp
    next
      case ge: False
      from "1.prems"(1) True x ge have
        r: "partition_loop arr pivot i (j + 1) high = Some (arr', i')"
        by (subst (asm) partition_loop.simps) (auto split: bind_splits)
      from "1.IH"(2)[OF True x ge r] True show ?thesis by simp
    qed
  qed
qed

lemma partition_index:
  assumes "partition arr low high = Some (arr', p)" and "low \<le> high"
  shows "low \<le> p \<and> p \<le> high"
proof -
  from assms(1) obtain pivot arr1 i where
    l: "partition_loop arr pivot (low - 1) low high = Some (arr1, i)" and p: "p = i + 1"
    by (auto simp: partition_def split: bind_splits)
  from partition_loop_index[OF l assms(2)] p show ?thesis by simp
qed

function quickSort :: "'a::linorder list \<Rightarrow> int \<Rightarrow> int \<Rightarrow> 'a list option" where
  "quickSort arr low high =
     (if low < high then do {
        (arr1, p) \<leftarrow> partition arr low high;
        arr2 \<leftarrow> quickSort arr1 low (p - 1);
        quickSort arr2 (p + 1) high }
      else Some arr)"
  by pat_completeness auto
termination
proof (relation "measure (\<lambda>(arr, low, high). nat (high - low + 1))", goal_cases)
  case 1
  show ?case by simp
next
  case (2 arr low high x arr1 p)
  then have "partition arr low high = Some (arr1, p)" by simp
  from partition_index[OF this] 2(1) show ?case by simp
next
  case (3 arr low high x arr1 p arr2)
  then have "partition arr low high = Some (arr1, p)" by simp
  from partition_index[OF this] 3(1) show ?case by simp
qed

declare quickSort.simps [simp del]


section \<open>heapSort.py\<close>

lemma py_get_range: "py_get xs i = Some v \<Longrightarrow> - int (length xs) \<le> i \<and> i < int (length xs)"
  by (auto simp: py_get_def py_index_def Let_def split: bind_splits if_splits)

lemma py_set_length: "py_set xs i v = Some ys \<Longrightarrow> length ys = length xs"
  by (auto simp: py_set_def split: bind_splits)

lemma swap_length: "swap arr i j = Some arr' \<Longrightarrow> length arr' = length arr"
  by (auto simp: swap_def split: bind_splits dest!: py_set_length)

lemma swap_range:
  "swap arr i j = Some arr' \<Longrightarrow> - int (length arr) \<le> j \<and> j < int (length arr)"
  by (auto simp: swap_def split: bind_splits dest: py_get_range)

text \<open>
  \<^verbatim>\<open>heapify\<close>: the two guarded comparisons (\<^verbatim>\<open>l < n and arr[l] > arr[largest]\<close>, then the
  same for \<open>r\<close>) choose \<open>largest\<close>; the element swap of line 14 is the same tuple
  assignment as \<open>swap\<close>.
\<close>

function heapify :: "'a::linorder list \<Rightarrow> int \<Rightarrow> int \<Rightarrow> 'a list option" where
  "heapify arr n i = do {
     let l = 2 * i + 1;
     let r = 2 * i + 2;
     largest1 \<leftarrow> (if l < n then do {
                    x \<leftarrow> py_get arr l;
                    y \<leftarrow> py_get arr i;
                    Some (if x > y then l else i) }
                  else Some i);
     largest \<leftarrow> (if r < n then do {
                    x \<leftarrow> py_get arr r;
                    y \<leftarrow> py_get arr largest1;
                    Some (if x > y then r else largest1) }
                  else Some largest1);
     if largest \<noteq> i then do {
       arr1 \<leftarrow> swap arr i largest;
       heapify arr1 n largest }
     else Some arr }"
  by pat_completeness auto
termination
proof (relation "measure (\<lambda>(arr, n, i).
          if i < 0 then nat n + 1 + nat (int (length arr) + i + 1) else nat (n - i))", goal_cases)
  case 1
  show ?case by simp
next
  case (2 arr n i l r largest1 largest arr1)
  from 2(6) have len: "length arr1 = length arr" by (rule swap_length)
  from 2(6) have rg: "- int (length arr) \<le> largest" by (auto dest: swap_range)
  from 2(3) 2(1) have l1: "largest1 = i \<or> (largest1 = 2 * i + 1 \<and> largest1 < n)"
    by (auto split: if_splits bind_splits)
  from 2(4) 2(2) have l2: "largest = largest1 \<or> (largest = 2 * i + 2 \<and> largest < n)"
    by (auto split: if_splits bind_splits)
  from l1 l2 2(5) rg len show ?case by auto
qed

declare heapify.simps [simp del]

text \<open>\<^verbatim>\<open>for i in range(n // 2 - 1, -1, -1): heapify(arr, n, i)\<close>, from the current \<open>i\<close>.\<close>

function heap_build :: "'a::linorder list \<Rightarrow> int \<Rightarrow> int \<Rightarrow> 'a list option" where
  "heap_build arr n i =
     (if i > -1 then do {
        arr1 \<leftarrow> heapify arr n i;
        heap_build arr1 n (i - 1) }
      else Some arr)"
  by pat_completeness auto
termination
  by (relation "measure (\<lambda>(arr, n, i). nat (i + 1))") auto

declare heap_build.simps [simp del]

text \<open>\<^verbatim>\<open>for i in range(n - 1, 0, -1)\<close>: swap the root with \<open>arr[i]\<close>, re-heapify the first \<open>i\<close>.\<close>

function heap_extract :: "'a::linorder list \<Rightarrow> int \<Rightarrow> 'a list option" where
  "heap_extract arr i =
     (if i > 0 then do {
        arr1 \<leftarrow> swap arr 0 i;
        arr2 \<leftarrow> heapify arr1 i 0;
        heap_extract arr2 (i - 1) }
      else Some arr)"
  by pat_completeness auto
termination
  by (relation "measure (\<lambda>(arr, i). nat i)") auto

declare heap_extract.simps [simp del]

definition heapSort :: "'a::linorder list \<Rightarrow> 'a list option" where
  "heapSort arr = do {
     let n = int (length arr);
     arr1 \<leftarrow> heap_build arr n (n div 2 - 1);
     heap_extract arr1 (n - 1) }"

section \<open>margeSort.py\<close>

text \<open>
  The elements are compared with \<^verbatim>\<open><=\<close> only, which Python dispatches to the elements'
  own \<^verbatim>\<open>__le__\<close>; the model takes that relation as the parameter \<open>le\<close>.

  \<^verbatim>\<open>L = [0] * n1\<close> followed by \<^verbatim>\<open>for i in range(n1): L[i] = arr[left + i]\<close> overwrites every
  slot of \<open>L\<close> (or raises before \<open>L\<close> is used), so \<open>L\<close> is the list of the values read.
\<close>

definition copy_run :: "'a list \<Rightarrow> int \<Rightarrow> int \<Rightarrow> 'a list option" where
  "copy_run arr start n = those (map (\<lambda>i. py_get arr (start + int i)) [0..<nat n])"

text \<open>The first \<^verbatim>\<open>while\<close> loop of \<^verbatim>\<open>merge\<close>: both runs still have elements.\<close>

function merge_both ::
  "('a \<Rightarrow> 'a \<Rightarrow> bool) \<Rightarrow> 'a list \<Rightarrow> 'a list \<Rightarrow> 'a list \<Rightarrow> int \<Rightarrow> int \<Rightarrow> int \<Rightarrow> int \<Rightarrow> int \<Rightarrow>
   ('a list \<times> int \<times> int \<times> int) option" where
  "merge_both le arr L R n1 n2 i j k =
     (if i < n1 \<and> j < n2 then do {
        x \<leftarrow> py_get L i;
        y \<leftarrow> py_get R j;
        if le x y then do {
          arr1 \<leftarrow> py_set arr k x;
          merge_both le arr1 L R n1 n2 (i + 1) j (k + 1) }
        else do {
          arr1 \<leftarrow> py_set arr k y;
          merge_both le arr1 L R n1 n2 i (j + 1) (k + 1) } }
      else Some (arr, i, j, k))"
  by pat_completeness auto
termination
  by (relation "measure (\<lambda>(le, arr, L, R, n1, n2, i, j, k). nat (n1 - i) + nat (n2 - j))") auto

declare merge_both.simps [simp del]

text \<open>The second and third loops: copy what is left of one run (\<^verbatim>\<open>while i < n1\<close>).\<close>

function merge_rest :: "'a list \<Rightarrow> 'a list \<Rightarrow> int \<Rightarrow> int \<Rightarrow> int \<Rightarrow> ('a list \<times> int) option" where
  "merge_rest arr L n1 i k =
     (if i < n1 then do {
        x \<leftarrow> py_get L i;
        arr1 \<leftarrow> py_set arr k x;
        merge_rest arr1 L n1 (i + 1) (k + 1) }
      else Some (arr, k))"
  by pat_completeness auto
termination
  by (relation "measure (\<lambda>(arr, L, n1, i, k). nat (n1 - i))") auto

declare merge_rest.simps [simp del]

definition merge ::
  "('a \<Rightarrow> 'a \<Rightarrow> bool) \<Rightarrow> 'a list \<Rightarrow> int \<Rightarrow> int \<Rightarrow> int \<Rightarrow> 'a list option" where
  "merge le arr left mid right = do {
     let n1 = mid - left + 1;
     let n2 = right - mid;
     L \<leftarrow> copy_run arr left n1;
     R \<leftarrow> copy_run arr (mid + 1) n2;
     (arr1, i, j, k) \<leftarrow> merge_both le arr L R n1 n2 0 0 left;
     (arr2, k2) \<leftarrow> merge_rest arr1 L n1 i k;
     (arr3, k3) \<leftarrow> merge_rest arr2 R n2 j k2;
     Some arr3 }"

function mergeSort :: "('a \<Rightarrow> 'a \<Rightarrow> bool) \<Rightarrow> 'a list \<Rightarrow> int \<Rightarrow> int \<Rightarrow> 'a list option" where
  "mergeSort le arr left right =
     (if left < right then do {
        let mid = (left + right) div 2;
        arr1 \<leftarrow> mergeSort le arr left mid;
        arr2 \<leftarrow> mergeSort le arr1 (mid + 1) right;
        merge le arr2 left mid right }
      else Some arr)"
  by pat_completeness auto
termination
  by (relation "measure (\<lambda>(le, arr, left, right). nat (right - left))") auto

declare mergeSort.simps [simp del]

section \<open>bucketSort.py\<close>

text \<open>The \<^verbatim>\<open>while j >= 0 and bucket[j] > key\<close> loop of \<^verbatim>\<open>insertion_sort\<close>.\<close>

function isort_shift :: "'a::linorder list \<Rightarrow> 'a \<Rightarrow> int \<Rightarrow> ('a list \<times> int) option" where
  "isort_shift bucket key j =
     (if j \<ge> 0 then do {
        x \<leftarrow> py_get bucket j;
        if x > key then do {
          bucket1 \<leftarrow> py_set bucket (j + 1) x;
          isort_shift bucket1 key (j - 1) }
        else Some (bucket, j) }
      else Some (bucket, j))"
  by pat_completeness auto
termination
  by (relation "measure (\<lambda>(bucket, key, j). nat (j + 1))") auto

declare isort_shift.simps [simp del]

text \<open>\<^verbatim>\<open>for i in range(1, len(bucket))\<close>, from the current \<open>i\<close>; \<open>hi\<close> is the \<open>len(bucket)\<close>
  that \<open>range\<close> read once.\<close>

function isort_loop :: "'a::linorder list \<Rightarrow> int \<Rightarrow> int \<Rightarrow> 'a list option" where
  "isort_loop bucket i hi =
     (if i < hi then do {
        key \<leftarrow> py_get bucket i;
        (bucket1, j) \<leftarrow> isort_shift bucket key (i - 1);
        bucket2 \<leftarrow> py_set bucket1 (j + 1) key;
        isort_loop bucket2 (i + 1) hi }
      else Some bucket)"
  by pat_completeness auto
termination
  by (relation "measure (\<lambda>(bucket, i, hi). nat (hi - i))") auto

declare isort_loop.simps [simp del]

definition insertion_sort :: "'a::linorder list \<Rightarrow> 'a list option" where
  "insertion_sort bucket = isort_loop bucket 1 (int (length bucket))"

text \<open>
  The values of bucket sort are numbers; they are modelled as exact rationals (every
  finite float is one), with \<open>n * val\<close> the exact product.  \<^verbatim>\<open>int(x)\<close> truncates towards
  zero.
\<close>

definition py_int :: "rat \<Rightarrow> int" where
  "py_int x = (if x < 0 then \<lceil>x\<rceil> else \<lfloor>x\<rfloor>)"

definition bucket_index :: "int \<Rightarrow> rat \<Rightarrow> int" where
  "bucket_index n val = min (py_int (of_int n * val)) (n - 1)"

text \<open>The scatter loop \<^verbatim>\<open>for val in arr: bi = ...; buckets[bi].append(val)\<close>.\<close>

fun scatter :: "rat list list \<Rightarrow> int \<Rightarrow> rat list \<Rightarrow> rat list list option" where
  "scatter buckets n [] = Some buckets"
| "scatter buckets n (val # vals) = do {
     let bi = bucket_index n val;
     b \<leftarrow> py_get buckets bi;
     buckets1 \<leftarrow> py_set buckets bi (b @ [val]);
     scatter buckets1 n vals }"

text \<open>\<^verbatim>\<open>for bucket in buckets: insertion_sort(bucket)\<close>.\<close>

fun sort_buckets :: "'a::linorder list list \<Rightarrow> 'a list list option" where
  "sort_buckets [] = Some []"
| "sort_buckets (bucket # buckets) = do {
     bucket1 \<leftarrow> insertion_sort bucket;
     buckets1 \<leftarrow> sort_buckets buckets;
     Some (bucket1 # buckets1) }"

text \<open>The write-back: \<^verbatim>\<open>for val in bucket: arr[index] = val; index += 1\<close> for each bucket.\<close>

fun gather_bucket :: "'a list \<Rightarrow> int \<Rightarrow> 'a list \<Rightarrow> ('a list \<times> int) option" where
  "gather_bucket arr index [] = Some (arr, index)"
| "gather_bucket arr index (val # vals) = do {
     arr1 \<leftarrow> py_set arr index val;
     gather_bucket arr1 (index + 1) vals }"

fun gather :: "'a list \<Rightarrow> int \<Rightarrow> 'a list list \<Rightarrow> 'a list option" where
  "gather arr index [] = Some arr"
| "gather arr index (bucket # buckets) = do {
     (arr1, index1) \<leftarrow> gather_bucket arr index bucket;
     gather arr1 index1 buckets }"

definition bucket_sort :: "rat list \<Rightarrow> rat list option" where
  "bucket_sort arr = do {
     let n = int (length arr);
     let buckets = replicate (length arr) [];
     buckets1 \<leftarrow> scatter buckets n arr;
     buckets2 \<leftarrow> sort_buckets buckets1;
     gather arr 0 buckets2 }"


section \<open>quicksort_animation.py: the event recorder\<close>

text \<open>
  An event is the dict that \<^verbatim>\<open>push\<close> appends: its \<^verbatim>\<open>kind\<close> is the constructor, the first
  argument is the snapshot \<^verbatim>\<open>data[:]\<close>, the others are the keyword arguments in the order
  of the source (\<open>lo\<close>, \<open>hi\<close>, \<open>pivot_idx\<close>, then \<open>j\<close>, or \<open>a\<close> and \<open>b\<close>, or \<open>idx\<close> and
  \<open>sorted_set\<close>).  The display text \<^verbatim>\<open>msg\<close> is left out; where formatting it reads a list
  element that the surrounding code does not read, the read is kept.
\<close>

datatype 'a qs_event =
    QPivot "'a list" int int int
  | QCompare "'a list" int int int int
  | QSwap "'a list" int int int int int
  | QSorted_idx "'a list" int int int "int set"
  | QDone "'a list" "int set"

text \<open>The variables that the closures \<^verbatim>\<open>push\<close>, \<^verbatim>\<open>partition\<close> and \<^verbatim>\<open>qs\<close> share.\<close>

record 'a qs_state =
  q_data :: "'a list"
  q_events :: "'a qs_event list"
  q_sorted_set :: "int set"

definition qs_push :: "'a qs_state \<Rightarrow> ('a list \<Rightarrow> 'a qs_event) \<Rightarrow> 'a qs_state" where
  "qs_push st ev = st\<lparr>q_events := q_events st @ [ev (q_data st)]\<rparr>"

function qs_partition_loop ::
  "'a::linorder qs_state \<Rightarrow> 'a \<Rightarrow> int \<Rightarrow> int \<Rightarrow> int \<Rightarrow> int \<Rightarrow> ('a qs_state \<times> int) option" where
  "qs_partition_loop st pivot lo hi i j =
     (if j < hi then do {
        x \<leftarrow> py_get (q_data st) j;
        let st1 = qs_push st (\<lambda>d. QCompare d lo hi hi j);
        if x < pivot then
          (if i + 1 \<noteq> j then do {
             let st2 = qs_push st1 (\<lambda>d. QSwap d lo hi hi (i + 1) j);
             d \<leftarrow> swap (q_data st2) (i + 1) j;
             qs_partition_loop (st2\<lparr>q_data := d\<rparr>) pivot lo hi (i + 1) (j + 1) }
           else qs_partition_loop st1 pivot lo hi (i + 1) (j + 1))
        else qs_partition_loop st1 pivot lo hi i (j + 1) }
      else Some (st, i))"
  by pat_completeness auto
termination
  by (relation "measure (\<lambda>(st, pivot, lo, hi, i, j). nat (hi - j))") auto

declare qs_partition_loop.simps [simp del]

definition qs_partition :: "'a::linorder qs_state \<Rightarrow> int \<Rightarrow> int \<Rightarrow> ('a qs_state \<times> int) option" where
  "qs_partition st lo hi = do {
     pivot \<leftarrow> py_get (q_data st) hi;
     let st1 = qs_push st (\<lambda>d. QPivot d lo hi hi);
     (st2, i) \<leftarrow> qs_partition_loop st1 pivot lo hi (lo - 1) lo;
     let p = i + 1;
     st3 \<leftarrow> (if p \<noteq> hi then do {
               let st2' = qs_push st2 (\<lambda>d. QSwap d lo hi hi p hi);
               d \<leftarrow> swap (q_data st2') p hi;
               Some (st2'\<lparr>q_data := d\<rparr>) }
             else Some st2);
     let st4 = st3\<lparr>q_sorted_set := insert p (q_sorted_set st3)\<rparr>;
     _ \<leftarrow> py_get (q_data st4) p;
     Some (qs_push st4 (\<lambda>d. QSorted_idx d lo hi p (q_sorted_set st4)), p) }"

lemma qs_partition_loop_index:
  "qs_partition_loop st pivot lo hi i j = Some (st', i') \<Longrightarrow> j \<le> hi \<Longrightarrow>
   i \<le> i' \<and> i' - i \<le> hi - j"
proof (induction st pivot lo hi i j arbitrary: st' i' rule: qs_partition_loop.induct)
  case (1 st pivot lo hi i j)
  show ?case
  proof (cases "j < hi")
    case False
    with "1.prems" show ?thesis
      by (subst (asm) qs_partition_loop.simps) simp
  next
    case True
    from "1.prems"(1) True obtain x where x: "py_get (q_data st) j = Some x"
      by (subst (asm) qs_partition_loop.simps) (auto split: bind_splits)
    define st1 where "st1 = qs_push st (\<lambda>d. QCompare d lo hi hi j)"
    show ?thesis
    proof (cases "x < pivot")
      case ge: False
      from "1.prems"(1) True x ge have
        r: "qs_partition_loop st1 pivot lo hi i (j + 1) = Some (st', i')"
        by (subst (asm) qs_partition_loop.simps) (auto simp: st1_def)
      from "1.IH"(3)[OF True x st1_def ge r] True show ?thesis by simp
    next
      case lt: True
      show ?thesis
      proof (cases "i + 1 = j")
        case eq: True
        from "1.prems"(1) True x lt eq have
          r: "qs_partition_loop st1 pivot lo hi (i + 1) (j + 1) = Some (st', i')"
          by (subst (asm) qs_partition_loop.simps) (auto simp: st1_def)
        from eq have ne: "\<not> i + 1 \<noteq> j" by simp
        from "1.IH"(2)[OF True x st1_def lt ne r] True show ?thesis by simp
      next
        case ne: False
        define st2 where "st2 = qs_push st1 (\<lambda>d. QSwap d lo hi hi (i + 1) j)"
        from "1.prems"(1) True x lt ne obtain d where
          d: "swap (q_data st2) (i + 1) j = Some d" and
          r: "qs_partition_loop (st2\<lparr>q_data := d\<rparr>) pivot lo hi (i + 1) (j + 1) = Some (st', i')"
          by (subst (asm) qs_partition_loop.simps)
             (auto simp: st1_def st2_def Let_def split: bind_splits)
        from "1.IH"(1)[OF True x st1_def lt ne st2_def d r] True show ?thesis by simp
      qed
    qed
  qed
qed

lemma qs_partition_index:
  assumes "qs_partition st lo hi = Some (st', p)" and "lo \<le> hi"
  shows "lo \<le> p \<and> p \<le> hi"
proof -
  from assms(1) obtain pivot st2 i where
    l: "qs_partition_loop (qs_push st (\<lambda>d. QPivot d lo hi hi)) pivot lo hi (lo - 1) lo
          = Some (st2, i)" and p: "p = i + 1"
    by (auto simp: qs_partition_def Let_def split: bind_splits if_splits)
  from qs_partition_loop_index[OF l assms(2)] p show ?thesis by simp
qed

function qs :: "'a::linorder qs_state \<Rightarrow> int \<Rightarrow> int \<Rightarrow> 'a qs_state option" where
  "qs st lo hi =
     (if lo < hi then do {
        (st1, p) \<leftarrow> qs_partition st lo hi;
        st2 \<leftarrow> qs st1 lo (p - 1);
        qs st2 (p + 1) hi }
      else if lo = hi then do {
        let st1 = st\<lparr>q_sorted_set := insert lo (q_sorted_set st)\<rparr>;
        _ \<leftarrow> py_get (q_data st1) lo;
        Some (qs_push st1 (\<lambda>d. QSorted_idx d lo hi lo (q_sorted_set st1))) }
      else Some st)"
  by pat_completeness auto
termination
proof (relation "measure (\<lambda>(st, lo, hi). nat (hi - lo + 1))", goal_cases)
  case 1
  show ?case by simp
next
  case (2 st lo hi x st1 p)
  then have "qs_partition st lo hi = Some (st1, p)" by simp
  from qs_partition_index[OF this] 2(1) show ?case by simp
next
  case (3 st lo hi x st1 p st2)
  then have "qs_partition st lo hi = Some (st1, p)" by simp
  from qs_partition_index[OF this] 3(1) show ?case by simp
qed

declare qs.simps [simp del]

definition qs_record_events :: "'a::linorder list \<Rightarrow> 'a qs_event list option" where
  "qs_record_events original = do {
     let st = \<lparr>q_data = original, q_events = [], q_sorted_set = {}\<rparr>;
     st1 \<leftarrow> qs st 0 (int (length (q_data st)) - 1);
     let st2 = qs_push st1 (\<lambda>d. QDone d (q_sorted_set st1));
     Some (q_events st2) }"


section \<open>heapsort_animation.py: the event recorder\<close>

text \<open>
  Events as for quicksort: the first argument is the snapshot \<^verbatim>\<open>arr[:]\<close>, then the keyword
  arguments in source order (\<open>n\<close>, \<open>i\<close>, \<open>l\<close>, \<open>r\<close>, \<open>largest\<close>; \<open>n\<close>, \<open>a\<close>, \<open>b\<close>; \<open>n\<close>,
  \<open>idx\<close>; the phase name).
\<close>

datatype 'a hs_event =
    HPhase "'a list" string
  | HStart_heapify "'a list" int int
  | HCompare "'a list" int int int int int
  | HLargest_found "'a list" int int int
  | HSwap "'a list" int int int
  | HAfter_swap "'a list" int int int
  | HHeapify_done "'a list" int int
  | HHeap_ready "'a list"
  | HExtract "'a list" int int
  | HAfter_extract "'a list" int int
  | HDone "'a list"

record 'a hs_state =
  h_arr :: "'a list"
  h_events :: "'a hs_event list"

definition hs_push :: "'a hs_state \<Rightarrow> ('a list \<Rightarrow> 'a hs_event) \<Rightarrow> 'a hs_state" where
  "hs_push st ev = st\<lparr>h_events := h_events st @ [ev (h_arr st)]\<rparr>"

text \<open>The \<^verbatim>\<open>while True\<close> loop of the recorder's \<^verbatim>\<open>heapify\<close>; one call is one iteration.
  The text of \<^verbatim>\<open>largest_found\<close> reads \<open>arr[largest]\<close>.\<close>

function hs_heapify :: "'a::linorder hs_state \<Rightarrow> int \<Rightarrow> int \<Rightarrow> 'a hs_state option" where
  "hs_heapify st n i = do {
     let l = 2 * i + 1;
     let r = 2 * i + 2;
     let st1 = hs_push st (\<lambda>a. HCompare a n i (if l < n then l else -1) (if r < n then r else -1) i);
     largest1 \<leftarrow> (if l < n then do {
                    x \<leftarrow> py_get (h_arr st1) l;
                    y \<leftarrow> py_get (h_arr st1) i;
                    Some (if x > y then l else i) }
                  else Some i);
     largest \<leftarrow> (if r < n then do {
                    x \<leftarrow> py_get (h_arr st1) r;
                    y \<leftarrow> py_get (h_arr st1) largest1;
                    Some (if x > y then r else largest1) }
                  else Some largest1);
     _ \<leftarrow> py_get (h_arr st1) largest;
     let st2 = hs_push st1 (\<lambda>a. HLargest_found a n i largest);
     if largest \<noteq> i then do {
       let st3 = hs_push st2 (\<lambda>a. HSwap a n i largest);
       a' \<leftarrow> swap (h_arr st3) i largest;
       let st4 = hs_push (st3\<lparr>h_arr := a'\<rparr>) (\<lambda>a. HAfter_swap a n i largest);
       hs_heapify st4 n largest }
     else Some (hs_push st2 (\<lambda>a. HHeapify_done a n i)) }"
  by pat_completeness auto
termination
proof (relation "measure (\<lambda>(st, n, i).
          if i < 0 then nat n + 1 + nat (int (length (h_arr st)) + i + 1) else nat (n - i))",
       goal_cases)
  case 1
  show ?case by simp
next
  case (2 st n i l r st1 largest1 largest u st2 st3 a' st4)
  have a: "h_arr st3 = h_arr st" using 2 by (simp add: hs_push_def)
  from 2(10) a have len: "length a' = length (h_arr st)" by (auto dest: swap_length)
  from 2(10) a have rg: "- int (length (h_arr st)) \<le> largest" by (auto dest: swap_range)
  from 2(4) 2(1) have l1: "largest1 = i \<or> (largest1 = 2 * i + 1 \<and> largest1 < n)"
    by (auto split: if_splits bind_splits)
  from 2(5) 2(2) have l2: "largest = largest1 \<or> (largest = 2 * i + 2 \<and> largest < n)"
    by (auto split: if_splits bind_splits)
  have "h_arr st4 = a'" using 2 by (simp add: hs_push_def)
  with l1 l2 2(8) rg len show ?case by auto
qed

declare hs_heapify.simps [simp del]

text \<open>The build loop; the text of \<^verbatim>\<open>start_heapify\<close> reads \<open>arr[i]\<close>.\<close>

function hs_build :: "'a::linorder hs_state \<Rightarrow> int \<Rightarrow> int \<Rightarrow> 'a hs_state option" where
  "hs_build st n i =
     (if i > -1 then do {
        _ \<leftarrow> py_get (h_arr st) i;
        let st1 = hs_push st (\<lambda>a. HStart_heapify a n i);
        st2 \<leftarrow> hs_heapify st1 n i;
        hs_build st2 n (i - 1) }
      else Some st)"
  by pat_completeness auto
termination
  by (relation "measure (\<lambda>(st, n, i). nat (i + 1))") auto

declare hs_build.simps [simp del]

text \<open>The extract loop \<^verbatim>\<open>for size in range(n - 1, 0, -1)\<close>; \<open>sz\<close> is the source's \<open>size\<close>.\<close>

function hs_extract :: "'a::linorder hs_state \<Rightarrow> int \<Rightarrow> 'a hs_state option" where
  "hs_extract st sz =
     (if sz > 0 then do {
        let st1 = hs_push st (\<lambda>a. HExtract a (sz + 1) sz);
        a' \<leftarrow> swap (h_arr st1) 0 sz;
        let st2 = hs_push (st1\<lparr>h_arr := a'\<rparr>) (\<lambda>a. HAfter_extract a sz sz);
        st3 \<leftarrow> (if sz > 1 then hs_heapify st2 sz 0 else Some st2);
        hs_extract st3 (sz - 1) }
      else Some st)"
  by pat_completeness auto
termination
  by (relation "measure (\<lambda>(st, sz). nat sz)") auto

declare hs_extract.simps [simp del]

definition hs_record_events :: "'a::linorder list \<Rightarrow> 'a hs_event list option" where
  "hs_record_events original = do {
     let st = \<lparr>h_arr = original, h_events = []\<rparr>;
     let n = int (length (h_arr st));
     let st1 = hs_push st (\<lambda>a. HPhase a ''build'');
     st2 \<leftarrow> hs_build st1 n (n div 2 - 1);
     let st3 = hs_push st2 HHeap_ready;
     let st4 = hs_push st3 (\<lambda>a. HPhase a ''extract'');
     st5 \<leftarrow> hs_extract st4 (n - 1);
     Some (h_events (hs_push st5 HDone)) }"

section \<open>bucketsort_animation.py: the event recorder\<close>

text \<open>
  The events carry no snapshot; the arguments are the keyword arguments in source order.
  \<open>oi\<close> is the original index of an element.  The buckets of the recorder hold original
  indices, and \<open>vals\<close> the values at those indices.
\<close>

datatype bs_event =
    BScatter int rat int
  | BBucket_done int
  | BIsort_start int int
  | BIsort_key int int int
  | BIsort_compare int int int int rat rat
  | BIsort_shift int int int int
  | BIsort_place int int int
  | BGather_start
  | BGather int int int int
  | BDone

text \<open>\<^verbatim>\<open>for oi, val in enumerate(arr)\<close>: push \<^verbatim>\<open>scatter\<close>, append \<open>oi\<close> to its bucket.\<close>

fun bs_scatter ::
  "bs_event list \<Rightarrow> int list list \<Rightarrow> int \<Rightarrow> int \<Rightarrow> rat list \<Rightarrow>
   (bs_event list \<times> int list list) option" where
  "bs_scatter evts buckets n oi [] = Some (evts, buckets)"
| "bs_scatter evts buckets n oi (val # vals) = do {
     let bi = bucket_index n val;
     let evts1 = evts @ [BScatter oi val bi];
     b \<leftarrow> py_get buckets bi;
     buckets1 \<leftarrow> py_set buckets bi (b @ [oi]);
     bs_scatter evts1 buckets1 n (oi + 1) vals }"

text \<open>The \<^verbatim>\<open>while j >= 0 and vals[j] > key\<close> loop, on \<open>vals\<close> and \<open>bucket\<close> together.\<close>

function bs_isort_shift ::
  "bs_event list \<Rightarrow> rat list \<Rightarrow> int list \<Rightarrow> int \<Rightarrow> rat \<Rightarrow> int \<Rightarrow> int \<Rightarrow>
   (bs_event list \<times> rat list \<times> int list \<times> int) option" where
  "bs_isort_shift evts vals bucket bi key key_oi j =
     (if j \<ge> 0 then do {
        x \<leftarrow> py_get vals j;
        if x > key then do {
          oi_j \<leftarrow> py_get bucket j;
          let evts1 = evts @ [BIsort_compare bi j oi_j key_oi key x];
          vals1 \<leftarrow> py_set vals (j + 1) x;
          bucket1 \<leftarrow> py_set bucket (j + 1) oi_j;
          oi \<leftarrow> py_get bucket1 (j + 1);
          let evts2 = evts1 @ [BIsort_shift bi j (j + 1) oi];
          bs_isort_shift evts2 vals1 bucket1 bi key key_oi (j - 1) }
        else Some (evts, vals, bucket, j) }
      else Some (evts, vals, bucket, j))"
  by pat_completeness auto
termination
  by (relation "measure (\<lambda>(evts, vals, bucket, bi, key, key_oi, j). nat (j + 1))") auto

declare bs_isort_shift.simps [simp del]

function bs_isort_loop ::
  "bs_event list \<Rightarrow> rat list \<Rightarrow> int list \<Rightarrow> int \<Rightarrow> int \<Rightarrow> int \<Rightarrow>
   (bs_event list \<times> rat list \<times> int list) option" where
  "bs_isort_loop evts vals bucket bi i hi =
     (if i < hi then do {
        key \<leftarrow> py_get vals i;
        key_oi \<leftarrow> py_get bucket i;
        let evts1 = evts @ [BIsort_key bi i key_oi];
        (evts2, vals1, bucket1, j) \<leftarrow> bs_isort_shift evts1 vals bucket bi key key_oi (i - 1);
        vals2 \<leftarrow> py_set vals1 (j + 1) key;
        bucket2 \<leftarrow> py_set bucket1 (j + 1) key_oi;
        let evts3 = evts2 @ [BIsort_place bi (j + 1) key_oi];
        bs_isort_loop evts3 vals2 bucket2 bi (i + 1) hi }
      else Some (evts, vals, bucket))"
  by pat_completeness auto
termination
  by (relation "measure (\<lambda>(evts, vals, bucket, bi, i, hi). nat (hi - i))") auto

declare bs_isort_loop.simps [simp del]

text \<open>One iteration of \<^verbatim>\<open>for bi, bucket in enumerate(buckets)\<close>.\<close>

definition bs_sort_bucket ::
  "rat list \<Rightarrow> bs_event list \<Rightarrow> int \<Rightarrow> int list \<Rightarrow> (bs_event list \<times> int list) option" where
  "bs_sort_bucket arr evts bi bucket = do {
     vals \<leftarrow> those (map (py_get arr) bucket);
     if length bucket \<le> 1 then
       Some (if length bucket = 1 then evts @ [BBucket_done bi] else evts, bucket)
     else do {
       let evts1 = evts @ [BIsort_start bi (int (length bucket))];
       (evts2, vals1, bucket1) \<leftarrow> bs_isort_loop evts1 vals bucket bi 1 (int (length vals));
       Some (evts2 @ [BBucket_done bi], bucket1) } }"

fun bs_sort_buckets ::
  "rat list \<Rightarrow> bs_event list \<Rightarrow> int \<Rightarrow> int list list \<Rightarrow>
   (bs_event list \<times> int list list) option" where
  "bs_sort_buckets arr evts bi [] = Some (evts, [])"
| "bs_sort_buckets arr evts bi (bucket # buckets) = do {
     (evts1, bucket1) \<leftarrow> bs_sort_bucket arr evts bi bucket;
     (evts2, buckets1) \<leftarrow> bs_sort_buckets arr evts1 (bi + 1) buckets;
     Some (evts2, bucket1 # buckets1) }"

text \<open>The gather loops; the text of \<^verbatim>\<open>gather\<close> reads \<open>arr[oi]\<close>.\<close>

fun bs_gather_bucket ::
  "rat list \<Rightarrow> bs_event list \<Rightarrow> int \<Rightarrow> int \<Rightarrow> int \<Rightarrow> int list \<Rightarrow> (bs_event list \<times> int) option"
  where
  "bs_gather_bucket arr evts bi slot dest [] = Some (evts, dest)"
| "bs_gather_bucket arr evts bi slot dest (oi # ois) = do {
     _ \<leftarrow> py_get arr oi;
     bs_gather_bucket arr (evts @ [BGather bi slot oi dest]) bi (slot + 1) (dest + 1) ois }"

fun bs_gather ::
  "rat list \<Rightarrow> bs_event list \<Rightarrow> int \<Rightarrow> int \<Rightarrow> int list list \<Rightarrow> bs_event list option" where
  "bs_gather arr evts bi dest [] = Some evts"
| "bs_gather arr evts bi dest (bucket # buckets) = do {
     (evts1, dest1) \<leftarrow> bs_gather_bucket arr evts bi 0 dest bucket;
     bs_gather arr evts1 (bi + 1) dest1 buckets }"

definition bs_record_events :: "rat list \<Rightarrow> (bs_event list \<times> int list list) option" where
  "bs_record_events arr = do {
     let n = int (length arr);
     let buckets = replicate (length arr) [];
     (evts1, buckets1) \<leftarrow> bs_scatter [] buckets n 0 arr;
     (evts2, buckets2) \<leftarrow> bs_sort_buckets arr evts1 0 buckets1;
     let evts3 = evts2 @ [BGather_start];
     evts4 \<leftarrow> bs_gather arr evts3 0 0 buckets2;
     Some (evts4 @ [BDone], buckets2) }"

section \<open>bucketSort.py over machine numbers\<close>

text \<open>
  On floats the product \<^verbatim>\<open>n * val\<close> is rounded and can be infinite, and \<^verbatim>\<open>int(...)\<close> raises
  \<^verbatim>\<open>OverflowError\<close> on an infinity and \<^verbatim>\<open>ValueError\<close> on a NaN.  To speak about every
  number type at once, \<open>bucket_sort_with\<close> is \<^verbatim>\<open>bucket_sort\<close> with the expression
  \<^verbatim>\<open>int(n * val)\<close> as a parameter \<open>scale n val\<close>, which is \<open>None\<close> when the expression
  raises.  The rest is the code of \<^verbatim>\<open>bucket_sort\<close> as above: the \<^verbatim>\<open>min\<close> with \<open>n - 1\<close>, the
  access \<^verbatim>\<open>buckets[bi]\<close> with its negative indices, the insertion sorts, the write-back.
\<close>

definition bucket_index_with :: "(int \<Rightarrow> 'v \<Rightarrow> int option) \<Rightarrow> int \<Rightarrow> 'v \<Rightarrow> int option" where
  "bucket_index_with scale n val = do { k \<leftarrow> scale n val; Some (min k (n - 1)) }"

fun scatter_with ::
  "(int \<Rightarrow> 'v \<Rightarrow> int option) \<Rightarrow> 'v list list \<Rightarrow> int \<Rightarrow> 'v list \<Rightarrow> 'v list list option" where
  "scatter_with scale buckets n [] = Some buckets"
| "scatter_with scale buckets n (val # vals) = do {
     bi \<leftarrow> bucket_index_with scale n val;
     b \<leftarrow> py_get buckets bi;
     buckets1 \<leftarrow> py_set buckets bi (b @ [val]);
     scatter_with scale buckets1 n vals }"

definition bucket_sort_with ::
  "(int \<Rightarrow> 'v::linorder \<Rightarrow> int option) \<Rightarrow> 'v list \<Rightarrow> 'v list option" where
  "bucket_sort_with scale arr = do {
     let n = int (length arr);
     let buckets = replicate (length arr) [];
     buckets1 \<leftarrow> scatter_with scale buckets n arr;
     buckets2 \<leftarrow> sort_buckets buckets1;
     gather arr 0 buckets2 }"

text \<open>The exact arithmetic of \<open>bucket_index\<close>, as a \<open>scale\<close>.\<close>

definition exact_scale :: "int \<Rightarrow> rat \<Rightarrow> int option" where
  "exact_scale n val = Some (py_int (of_int n * val))"

section \<open>Reading the event logs\<close>

text \<open>
  The pivot value that a \<^verbatim>\<open>pivot\<close> event records: its text is \<^verbatim>\<open>Pivot = {pivot}\<close> with
  \<open>pivot = data[hi]\<close>, which is the snapshot's element at \<open>pivot_idx\<close>.
\<close>

fun is_pivot :: "'a qs_event \<Rightarrow> bool" where
  "is_pivot (QPivot d lo hi pivot_idx) = True"
| "is_pivot _ = False"

fun pivot_value :: "'a qs_event \<Rightarrow> 'a option" where
  "pivot_value (QPivot d lo hi pivot_idx) = py_get d pivot_idx"
| "pivot_value _ = None"

section \<open>Replaying an event log\<close>

text \<open>
  Replay of the mutation-bearing records on a copy of the input, as the scenes do when they
  consume the log.  For quicksort the only mutation-bearing record is \<^verbatim>\<open>swap\<close>, which
  exchanges the positions \<open>a\<close> and \<open>b\<close>.
\<close>

fun qs_apply :: "'a qs_event \<Rightarrow> 'a list \<Rightarrow> 'a list option" where
  "qs_apply (QSwap d lo hi pivot_idx a b) xs = swap xs a b"
| "qs_apply _ xs = Some xs"

fun qs_replay :: "'a qs_event list \<Rightarrow> 'a list \<Rightarrow> 'a list option" where
  "qs_replay [] xs = Some xs"
| "qs_replay (e # es) xs = do { ys \<leftarrow> qs_apply e xs; qs_replay es ys }"

text \<open>A \<^verbatim>\<open>swap\<close> record of quicksort exchanges two different positions.\<close>

fun qs_swap_distinct :: "'a qs_event \<Rightarrow> bool" where
  "qs_swap_distinct (QSwap d lo hi pivot_idx a b) = (a \<noteq> b)"
| "qs_swap_distinct _ = True"

text \<open>
  For heapsort the scene exchanges two positions on a \<^verbatim>\<open>swap\<close> record (\<open>a\<close> and \<open>b\<close>) and on
  an \<^verbatim>\<open>extract\<close> record (the root \<open>0\<close> and \<open>idx\<close>).  \<open>hs_replay_swaps\<close> applies the \<^verbatim>\<open>swap\<close>
  records alone.
\<close>

fun hs_apply :: "'a hs_event \<Rightarrow> 'a list \<Rightarrow> 'a list option" where
  "hs_apply (HSwap d n a b) xs = swap xs a b"
| "hs_apply (HExtract d n idx) xs = swap xs 0 idx"
| "hs_apply _ xs = Some xs"

fun hs_replay :: "'a hs_event list \<Rightarrow> 'a list \<Rightarrow> 'a list option" where
  "hs_replay [] xs = Some xs"
| "hs_replay (e # es) xs = do { ys \<leftarrow> hs_apply e xs; hs_replay es ys }"

fun hs_apply_swaps :: "'a hs_event \<Rightarrow> 'a list \<Rightarrow> 'a list option" where
  "hs_apply_swaps (HSwap d n a b) xs = swap xs a b"
| "hs_apply_swaps _ xs = Some xs"

fun hs_replay_swaps :: "'a hs_event list \<Rightarrow> 'a list \<Rightarrow> 'a list option" where
  "hs_replay_swaps [] xs = Some xs"
| "hs_replay_swaps (e # es) xs = do { ys \<leftarrow> hs_apply_swaps e xs; hs_replay_swaps es ys }"

text \<open>
  For bucket sort the scene keeps, for every original index \<open>oi\<close>, the bucket and slot
  where its element stands (\<open>oi_slot\<close>), and moves the element of \<open>oi\<close> to position
  \<open>dest\<close> of the flat array on a \<^verbatim>\<open>gather\<close> record.  An \<^verbatim>\<open>isort_shift\<close> or \<^verbatim>\<open>isort_place\<close>
  record moves an element to another slot of its bucket.  The replay state is the pair
  of \<open>oi_slot\<close> and the flat array, which starts as a copy of the input.
\<close>

type_synonym bs_scene = "(int \<Rightarrow> (int \<times> int) option) \<times> rat list"

fun bs_apply :: "rat list \<Rightarrow> bs_event \<Rightarrow> bs_scene \<Rightarrow> bs_scene option" where
  "bs_apply original (BIsort_shift bi from_slot to_slot oi) (oi_slot, flat) =
     Some (oi_slot(oi \<mapsto> (bi, to_slot)), flat)"
| "bs_apply original (BIsort_place bi slot oi) (oi_slot, flat) =
     Some (oi_slot(oi \<mapsto> (bi, slot)), flat)"
| "bs_apply original (BGather bi slot oi dest) (oi_slot, flat) = do {
     v \<leftarrow> py_get original oi;
     flat1 \<leftarrow> py_set flat dest v;
     Some (oi_slot, flat1) }"
| "bs_apply original _ scene = Some scene"

fun bs_replay :: "rat list \<Rightarrow> bs_event list \<Rightarrow> bs_scene \<Rightarrow> bs_scene option" where
  "bs_replay original [] scene = Some scene"
| "bs_replay original (e # es) scene = do {
     scene1 \<leftarrow> bs_apply original e scene;
     bs_replay original es scene1 }"

section \<open>Basic facts about list access\<close>

lemma py_index_in [simp]:
  "0 \<le> i \<Longrightarrow> i < int (length xs) \<Longrightarrow> py_index xs i = Some (nat i)"
  by (simp add: py_index_def)

lemma py_get_in [simp]:
  "0 \<le> i \<Longrightarrow> i < int (length xs) \<Longrightarrow> py_get xs i = Some (xs ! nat i)"
  by (simp add: py_get_def)

lemma py_set_in [simp]:
  "0 \<le> i \<Longrightarrow> i < int (length xs) \<Longrightarrow> py_set xs i v = Some (xs[nat i := v])"
  by (simp add: py_set_def)

lemma swap_in:
  "0 \<le> i \<Longrightarrow> i < int (length xs) \<Longrightarrow> 0 \<le> j \<Longrightarrow> j < int (length xs) \<Longrightarrow>
   swap xs i j = Some (xs[nat i := xs ! nat j, nat j := xs ! nat i])"
  by (simp add: swap_def)

section \<open>The bucket index\<close>

lemma bucket_index_bounds:
  assumes "0 < n" and "0 \<le> v" and "v < 1"
  shows "0 \<le> bucket_index n v \<and> bucket_index n v \<le> n - 1"
proof -
  have nn: "0 \<le> of_int n * v" using assms by simp
  then have fl: "py_int (of_int n * v) = \<lfloor>of_int n * v\<rfloor>" and "0 \<le> \<lfloor>of_int n * v\<rfloor>"
    by (simp_all add: py_int_def)
  then show ?thesis using assms(1) by (simp add: bucket_index_def)
qed

lemma scatter_in_range:
  "length buckets = nat n \<Longrightarrow> \<forall>v\<in>set vals. 0 \<le> bucket_index n v \<and> bucket_index n v \<le> n - 1 \<Longrightarrow>
   \<exists>buckets'. scatter buckets n vals = Some buckets' \<and> length buckets' = nat n"
proof (induction vals arbitrary: buckets)
  case Nil
  then show ?case by simp
next
  case (Cons v vals)
  let ?bi = "bucket_index n v"
  from Cons.prems have b: "0 \<le> ?bi" "?bi < int (length buckets)" by auto
  let ?b1 = "buckets[nat ?bi := buckets ! nat ?bi @ [v]]"
  have "length ?b1 = nat n" using Cons.prems(1) by simp
  from Cons.IH[OF this] Cons.prems(2) obtain buckets' where
    "scatter ?b1 n vals = Some buckets'" "length buckets' = nat n" by auto
  with b show ?case by (simp add: Let_def)
qed

section \<open>Correctness of quickSort\<close>


lemma swap_in_mset:
  assumes "0 \<le> i" "i < int (length xs)" "0 \<le> j" "j < int (length xs)"
  shows "\<exists>ys. swap xs i j = Some ys \<and> ys = xs[nat i := xs ! nat j, nat j := xs ! nat i]
        \<and> length ys = length xs \<and> mset ys = mset xs"
proof -
  have "mset (xs[nat i := xs ! nat j, nat j := xs ! nat i]) = mset xs"
    using assms by (simp add: mset_swap)
  with swap_in[OF assms] show ?thesis by simp
qed

definition outside_eq :: "'a list \<Rightarrow> 'a list \<Rightarrow> int \<Rightarrow> int \<Rightarrow> bool" where
  "outside_eq xs ys lo hi \<longleftrightarrow>
     length ys = length xs \<and> mset ys = mset xs \<and>
     (\<forall>k. 0 \<le> k \<and> k < int (length xs) \<and> (k < lo \<or> hi < k) \<longrightarrow> ys ! nat k = xs ! nat k)"

lemma outside_eq_refl: "outside_eq xs xs lo hi"
  by (simp add: outside_eq_def)

lemma outside_eq_trans:
  "outside_eq xs ys lo hi \<Longrightarrow> outside_eq ys zs lo hi \<Longrightarrow> outside_eq xs zs lo hi"
  by (auto simp: outside_eq_def)

lemma outside_eq_mono:
  "outside_eq xs ys lo' hi' \<Longrightarrow> lo \<le> lo' \<Longrightarrow> hi' \<le> hi \<Longrightarrow> outside_eq xs ys lo hi"
  by (auto simp: outside_eq_def)

lemma outside_eq_swap:
  assumes "0 \<le> lo" "hi < int (length xs)" "lo \<le> i" "i \<le> hi" "lo \<le> j" "j \<le> hi"
  shows "outside_eq xs (xs[nat i := xs ! nat j, nat j := xs ! nat i]) lo hi"
  using assms by (auto simp: outside_eq_def mset_swap nth_list_update)

lemma partition_loop_spec:
  assumes "0 \<le> low" "high < int (length arr)" "low \<le> j" "j \<le> high" "low - 1 \<le> i" "i < j"
    and "\<forall>k. low \<le> k \<and> k \<le> i \<longrightarrow> arr ! nat k < pivot"
    and "\<forall>k. i < k \<and> k < j \<longrightarrow> \<not> arr ! nat k < pivot"
  shows "\<exists>arr' i'. partition_loop arr pivot i j high = Some (arr', i')
          \<and> outside_eq arr arr' low (high - 1) \<and> low - 1 \<le> i' \<and> i' < high
          \<and> (\<forall>k. low \<le> k \<and> k \<le> i' \<longrightarrow> arr' ! nat k < pivot)
          \<and> (\<forall>k. i' < k \<and> k < high \<longrightarrow> \<not> arr' ! nat k < pivot)"
  using assms
proof (induction arr pivot i j high rule: partition_loop.induct)
  case (1 arr pivot i j high)
  show ?case
  proof (cases "j < high")
    case False
    with "1.prems" have "j = high" by simp
    with "1.prems" show ?thesis
      by (subst partition_loop.simps) (auto simp: outside_eq_refl)
  next
    case True
    have jr: "0 \<le> j" "j < int (length arr)" using "1.prems" True by auto
    have x: "py_get arr j = Some (arr ! nat j)" using jr by simp
    show ?thesis
    proof (cases "arr ! nat j < pivot")
      case ge: False
      have inv2: "\<forall>k. i < k \<and> k < j + 1 \<longrightarrow> \<not> arr ! nat k < pivot"
      proof (intro allI impI)
        fix k assume "i < k \<and> k < j + 1"
        then have "k = j \<or> (i < k \<and> k < j)" by auto
        with ge "1.prems"(8) show "\<not> arr ! nat k < pivot" by auto
      qed
      have "\<exists>arr' i'. partition_loop arr pivot i (j + 1) high = Some (arr', i')
          \<and> outside_eq arr arr' low (high - 1) \<and> low - 1 \<le> i' \<and> i' < high
          \<and> (\<forall>k. low \<le> k \<and> k \<le> i' \<longrightarrow> arr' ! nat k < pivot)
          \<and> (\<forall>k. i' < k \<and> k < high \<longrightarrow> \<not> arr' ! nat k < pivot)"
        using "1.prems" True inv2 by (intro "1.IH"(2)[OF True x ge]) auto
      then show ?thesis using True x ge by (subst partition_loop.simps) simp
    next
      case lt: True
      let ?a1 = "arr[nat (i + 1) := arr ! nat j, nat j := arr ! nat (i + 1)]"
      have ir: "0 \<le> i + 1" "i + 1 < int (length arr)" using "1.prems" jr by auto
      have sw: "swap arr (i + 1) j = Some ?a1" using swap_in[OF ir jr] .
      have oe: "outside_eq arr ?a1 low (high - 1)"
        using "1.prems" True by (intro outside_eq_swap) auto
      have inv1: "\<forall>k. low \<le> k \<and> k \<le> i + 1 \<longrightarrow> ?a1 ! nat k < pivot"
      proof (intro allI impI)
        fix k assume k: "low \<le> k \<and> k \<le> i + 1"
        show "?a1 ! nat k < pivot"
        proof (cases "k = i + 1")
          case True
          then show ?thesis using lt ir jr by (auto simp: nth_list_update)
        next
          case False
          with k have "low \<le> k \<and> k \<le> i" by simp
          moreover from this have "nat k \<noteq> nat (i + 1)" "nat k \<noteq> nat j"
            using "1.prems" by auto
          ultimately show ?thesis using "1.prems"(7) by (simp add: nth_list_update)
        qed
      qed
      have inv2: "\<forall>k. i + 1 < k \<and> k < j + 1 \<longrightarrow> \<not> ?a1 ! nat k < pivot"
      proof (intro allI impI)
        fix k assume k: "i + 1 < k \<and> k < j + 1"
        show "\<not> ?a1 ! nat k < pivot"
        proof (cases "k = j")
          case True
          with k have "i < i + 1 \<and> i + 1 < j" by simp
          with "1.prems"(8) have "\<not> arr ! nat (i + 1) < pivot" by blast
          then show ?thesis using True jr by (simp add: nth_list_update)
        next
          case False
          with k have kk: "i < k \<and> k < j" by simp
          then have "nat k \<noteq> nat (i + 1)" "nat k \<noteq> nat j" using k "1.prems" by auto
          then show ?thesis using "1.prems"(8) kk by (simp add: nth_list_update)
        qed
      qed
      have len: "high < int (length ?a1)" using "1.prems" by simp
      have "\<exists>arr' i'. partition_loop ?a1 pivot (i + 1) (j + 1) high = Some (arr', i')
          \<and> outside_eq ?a1 arr' low (high - 1) \<and> low - 1 \<le> i' \<and> i' < high
          \<and> (\<forall>k. low \<le> k \<and> k \<le> i' \<longrightarrow> arr' ! nat k < pivot)
          \<and> (\<forall>k. i' < k \<and> k < high \<longrightarrow> \<not> arr' ! nat k < pivot)"
        using "1.prems" True inv1 inv2 len by (intro "1.IH"(1)[OF True x lt sw]) auto
      then obtain arr' i' where r: "partition_loop ?a1 pivot (i + 1) (j + 1) high = Some (arr', i')"
          "outside_eq ?a1 arr' low (high - 1)" "low - 1 \<le> i'" "i' < high"
          "\<forall>k. low \<le> k \<and> k \<le> i' \<longrightarrow> arr' ! nat k < pivot"
          "\<forall>k. i' < k \<and> k < high \<longrightarrow> \<not> arr' ! nat k < pivot" by blast
      from outside_eq_trans[OF oe r(2)] r show ?thesis
        using True x lt sw by (subst partition_loop.simps) simp
    qed
  qed
qed


lemma slice_mset_nat:
  assumes "length ys = length xs" "mset ys = mset xs"
    and "\<forall>k<length xs. (k < l \<or> l + m \<le> k) \<longrightarrow> ys ! k = xs ! k"
    and "l + m \<le> length xs"
  shows "mset (take m (drop l ys)) = mset (take m (drop l xs))"
proof -
  have t: "take l ys = take l xs"
    using assms by (intro nth_equalityI) auto
  have d: "drop (l + m) ys = drop (l + m) xs"
    using assms by (intro nth_equalityI) auto
  have dec: "\<And>zs::'a list. zs = take l zs @ take m (drop l zs) @ drop (l + m) zs"
    by (metis add.commute append_take_drop_id drop_drop)
  have "mset xs = mset (take l xs) + mset (take m (drop l xs)) + mset (drop (l + m) xs)"
    by (subst dec[of xs]) simp
  moreover have "mset ys = mset (take l ys) + mset (take m (drop l ys)) + mset (drop (l + m) ys)"
    by (subst dec[of ys]) simp
  ultimately show ?thesis using assms(2) t d by simp
qed

lemma outside_eq_inside:
  assumes "outside_eq xs ys lo hi" "0 \<le> lo" "hi < int (length xs)" "lo \<le> k" "k \<le> hi"
  shows "\<exists>k'. lo \<le> k' \<and> k' \<le> hi \<and> ys ! nat k = xs ! nat k'"
proof -
  let ?l = "nat lo" and ?m = "nat (hi + 1 - lo)"
  from assms have len: "length ys = length xs" and ms: "mset ys = mset xs"
    and out: "\<forall>k. 0 \<le> k \<and> k < int (length xs) \<and> (k < lo \<or> hi < k) \<longrightarrow> ys ! nat k = xs ! nat k"
    by (auto simp: outside_eq_def)
  have o': "\<forall>k<length xs. (k < ?l \<or> ?l + ?m \<le> k) \<longrightarrow> ys ! k = xs ! k"
  proof (intro allI impI)
    fix j assume "j < length xs" "j < ?l \<or> ?l + ?m \<le> j"
    with assms(2-5) have "0 \<le> int j \<and> int j < int (length xs) \<and> (int j < lo \<or> hi < int j)"
      by auto
    with out have "ys ! nat (int j) = xs ! nat (int j)" by blast
    then show "ys ! j = xs ! j" by simp
  qed
  have b: "?l + ?m \<le> length xs" using assms(2-5) by auto
  have eq: "mset (take ?m (drop ?l ys)) = mset (take ?m (drop ?l xs))"
    by (rule slice_mset_nat[OF len ms o' b])
  have kin: "nat k - ?l < ?m" "nat k = ?l + (nat k - ?l)" using assms(2-5) by auto
  have "ys ! nat k = take ?m (drop ?l ys) ! (nat k - ?l)"
    using kin b len by (subst nth_take) auto
  moreover have "nat k - ?l < length (take ?m (drop ?l ys))"
  proof -
    have "nat k - ?l < length ys - ?l" using kin(1) b len by linarith
    with kin(1) show ?thesis by simp
  qed
  ultimately have "ys ! nat k \<in> set (take ?m (drop ?l ys))" by (metis nth_mem)
  then have "ys ! nat k \<in> set (take ?m (drop ?l xs))" using eq by (metis set_mset_mset)
  then obtain j where j: "j < length (take ?m (drop ?l xs))" "take ?m (drop ?l xs) ! j = ys ! nat k"
    by (auto simp: in_set_conv_nth)
  then have jm: "j < ?m" by simp
  with j b have "xs ! (?l + j) = ys ! nat k" by (simp add: nth_take)
  moreover have "lo \<le> int (?l + j) \<and> int (?l + j) \<le> hi" using jm assms(2-5) by auto
  ultimately show ?thesis by (metis nat_int)
qed

lemma partition_spec:
  assumes "0 \<le> low" "low \<le> high" "high < int (length arr)"
  shows "\<exists>arr' p. partition arr low high = Some (arr', p) \<and> outside_eq arr arr' low high
          \<and> low \<le> p \<and> p \<le> high
          \<and> (\<forall>k. low \<le> k \<and> k < p \<longrightarrow> arr' ! nat k < arr' ! nat p)
          \<and> (\<forall>k. p < k \<and> k \<le> high \<longrightarrow> \<not> arr' ! nat k < arr' ! nat p)"
proof -
  let ?pv = "arr ! nat high"
  have hr: "0 \<le> high" "high < int (length arr)" using assms by auto
  have "\<exists>arr1 i. partition_loop arr ?pv (low - 1) low high = Some (arr1, i)
          \<and> outside_eq arr arr1 low (high - 1) \<and> low - 1 \<le> i \<and> i < high
          \<and> (\<forall>k. low \<le> k \<and> k \<le> i \<longrightarrow> arr1 ! nat k < ?pv)
          \<and> (\<forall>k. i < k \<and> k < high \<longrightarrow> \<not> arr1 ! nat k < ?pv)"
    using assms by (intro partition_loop_spec) auto
  then obtain arr1 i where l: "partition_loop arr ?pv (low - 1) low high = Some (arr1, i)"
    and oe: "outside_eq arr arr1 low (high - 1)" and ib: "low - 1 \<le> i" "i < high"
    and inv1: "\<forall>k. low \<le> k \<and> k \<le> i \<longrightarrow> arr1 ! nat k < ?pv"
    and inv2: "\<forall>k. i < k \<and> k < high \<longrightarrow> \<not> arr1 ! nat k < ?pv" by blast
  from oe have len1: "length arr1 = length arr" by (simp add: outside_eq_def)
  from oe hr have pv1: "arr1 ! nat high = ?pv" by (auto simp: outside_eq_def)
  let ?a2 = "arr1[nat (i + 1) := arr1 ! nat high, nat high := arr1 ! nat (i + 1)]"
  have ir: "0 \<le> i + 1" "i + 1 < int (length arr1)" using ib assms len1 by auto
  have hr1: "0 \<le> high" "high < int (length arr1)" using hr len1 by auto
  have sw: "swap arr1 (i + 1) high = Some ?a2" using swap_in[OF ir hr1] .
  have oe2: "outside_eq arr1 ?a2 low high"
    using assms ib len1 by (intro outside_eq_swap) auto
  have oe3: "outside_eq arr ?a2 low high"
    using outside_eq_trans[OF outside_eq_mono[OF oe, of low high] oe2] by simp
  have p: "partition arr low high = Some (?a2, i + 1)"
    using hr l sw by (simp add: partition_def)
  have pvp: "?a2 ! nat (i + 1) = ?pv"
    using ir hr1 pv1 by (auto simp: nth_list_update)
  have lt: "\<forall>k. low \<le> k \<and> k < i + 1 \<longrightarrow> ?a2 ! nat k < ?a2 ! nat (i + 1)"
  proof (intro allI impI)
    fix k assume k: "low \<le> k \<and> k < i + 1"
    then have "nat k \<noteq> nat (i + 1)" "nat k \<noteq> nat high" using assms ib by auto
    then have "?a2 ! nat k = arr1 ! nat k" by simp
    with inv1 k pvp show "?a2 ! nat k < ?a2 ! nat (i + 1)" by simp
  qed
  have ge: "\<forall>k. i + 1 < k \<and> k \<le> high \<longrightarrow> \<not> ?a2 ! nat k < ?a2 ! nat (i + 1)"
  proof (intro allI impI)
    fix k assume k: "i + 1 < k \<and> k \<le> high"
    show "\<not> ?a2 ! nat k < ?a2 ! nat (i + 1)"
    proof (cases "k = high")
      case True
      with k have "i < i + 1 \<and> i + 1 < high" by simp
      with inv2 have "\<not> arr1 ! nat (i + 1) < ?pv" by blast
      moreover have "?a2 ! nat high = arr1 ! nat (i + 1)" using hr1 by simp
      ultimately show ?thesis using True pvp by simp
    next
      case False
      with k have kk: "i < k \<and> k < high" by simp
      then have "nat k \<noteq> nat (i + 1)" "nat k \<noteq> nat high" using assms ib k by auto
      then have "?a2 ! nat k = arr1 ! nat k" by simp
      with inv2 kk pvp show ?thesis by simp
    qed
  qed
  from p oe3 ib lt ge show ?thesis by auto
qed

definition sorted_between :: "'a::linorder list \<Rightarrow> int \<Rightarrow> int \<Rightarrow> bool" where
  "sorted_between xs lo hi \<longleftrightarrow> (\<forall>a b. lo \<le> a \<and> a \<le> b \<and> b \<le> hi \<longrightarrow> xs ! nat a \<le> xs ! nat b)"

lemma quickSort_spec:
  "0 \<le> low \<Longrightarrow> high < int (length arr) \<Longrightarrow>
   \<exists>arr'. quickSort arr low high = Some arr' \<and> outside_eq arr arr' low high
         \<and> sorted_between arr' low high"
proof (induction arr low high rule: quickSort.induct)
  case (1 arr low high)
  show ?case
  proof (cases "low < high")
    case False
    have "sorted_between arr low high"
      unfolding sorted_between_def
    proof (intro allI impI)
      fix a b assume "low \<le> a \<and> a \<le> b \<and> b \<le> high"
      with False have "a = b" by linarith
      then show "arr ! nat a \<le> arr ! nat b" by simp
    qed
    with False show ?thesis
      by (subst quickSort.simps) (simp add: outside_eq_refl)
  next
    case True
    from partition_spec[of low high arr] "1.prems" True obtain arr1 p where
      pt: "partition arr low high = Some (arr1, p)" and oe1: "outside_eq arr arr1 low high"
      and pb: "low \<le> p" "p \<le> high"
      and lt: "\<forall>k. low \<le> k \<and> k < p \<longrightarrow> arr1 ! nat k < arr1 ! nat p"
      and ge: "\<forall>k. p < k \<and> k \<le> high \<longrightarrow> \<not> arr1 ! nat k < arr1 ! nat p" by auto
    from oe1 have len1: "length arr1 = length arr" by (simp add: outside_eq_def)
    have "\<exists>arr2. quickSort arr1 low (p - 1) = Some arr2 \<and> outside_eq arr1 arr2 low (p - 1)
         \<and> sorted_between arr2 low (p - 1)"
      using "1.prems" pb len1 by (intro "1.IH"(1)[OF True pt refl]) auto
    then obtain arr2 where q1: "quickSort arr1 low (p - 1) = Some arr2"
      and oe2: "outside_eq arr1 arr2 low (p - 1)" and s2: "sorted_between arr2 low (p - 1)"
      by blast
    from oe2 have len2: "length arr2 = length arr1" by (simp add: outside_eq_def)
    have "\<exists>arr3. quickSort arr2 (p + 1) high = Some arr3 \<and> outside_eq arr2 arr3 (p + 1) high
         \<and> sorted_between arr3 (p + 1) high"
      using "1.prems" pb len1 len2 by (intro "1.IH"(2)[OF True pt refl q1]) auto
    then obtain arr3 where q2: "quickSort arr2 (p + 1) high = Some arr3"
      and oe3: "outside_eq arr2 arr3 (p + 1) high" and s3: "sorted_between arr3 (p + 1) high"
      by blast
    have pr: "0 \<le> p" "p < int (length arr)" using "1.prems" pb by auto
    let ?pv = "arr1 ! nat p"
    have pv2: "arr2 ! nat p = ?pv" using oe2 pr len1 by (auto simp: outside_eq_def)
    have pv3: "arr3 ! nat p = ?pv" using oe3 pr len1 len2 pv2 by (auto simp: outside_eq_def)
    have left2: "arr2 ! nat k < ?pv" if "low \<le> k" "k < p" for k
    proof -
      from outside_eq_inside[OF oe2, of k] that "1.prems" pr len1
      obtain k' where "low \<le> k'" "k' \<le> p - 1" "arr2 ! nat k = arr1 ! nat k'" by auto
      with lt show ?thesis by auto
    qed
    have left3: "arr3 ! nat k = arr2 ! nat k" if "low \<le> k" "k \<le> p" for k
      using oe3 that "1.prems" pr len1 len2 by (auto simp: outside_eq_def)
    have right2: "arr2 ! nat k = arr1 ! nat k" if "p < k" "k \<le> high" for k
      using oe2 that "1.prems" pr len1 by (auto simp: outside_eq_def)
    have right3: "?pv \<le> arr3 ! nat k" if "p < k" "k \<le> high" for k
    proof -
      from outside_eq_inside[OF oe3, of k] that "1.prems" pr len1 len2
      obtain k' where k': "p + 1 \<le> k'" "k' \<le> high" "arr3 ! nat k = arr2 ! nat k'" by auto
      then have "arr3 ! nat k = arr1 ! nat k'" using right2[of k'] by simp
      moreover have "\<not> arr1 ! nat k' < ?pv" using ge k' by auto
      ultimately show ?thesis by simp
    qed
    have sorted: "sorted_between arr3 low high"
      unfolding sorted_between_def
    proof (intro allI impI)
      fix a b assume ab: "low \<le> a \<and> a \<le> b \<and> b \<le> high"
      consider "b < p" | "a < p" "b = p" | "a < p" "p < b" | "a = p" | "p < a"
        using ab by linarith
      then show "arr3 ! nat a \<le> arr3 ! nat b"
      proof cases
        case 1
        then have "arr2 ! nat a \<le> arr2 ! nat b" using s2 ab by (auto simp: sorted_between_def)
        then show ?thesis using left3[of a] left3[of b] 1 ab by simp
      next
        case 2
        then show ?thesis using left3[of a] left2[of a] pv3 ab by simp
      next
        case 3
        then show ?thesis using left3[of a] left2[of a] right3[of b] ab by simp
      next
        case 4
        show ?thesis
        proof (cases "b = p")
          case True
          with 4 show ?thesis by simp
        next
          case False
          then show ?thesis using 4 pv3 right3[of b] ab by simp
        qed
      next
        case 5
        then show ?thesis using s3 ab by (auto simp: sorted_between_def)
      qed
    qed
    have oe: "outside_eq arr arr3 low high"
      using outside_eq_trans[OF oe1 outside_eq_trans[OF outside_eq_mono[OF oe2, of low high]
            outside_eq_mono[OF oe3, of low high]]] pb by simp
    have "quickSort arr low high = Some arr3"
      using True pt q1 q2 by (subst quickSort.simps) simp
    with oe sorted show ?thesis by blast
  qed
qed

lemma sorted_between_full:
  "sorted_between xs 0 (int (length xs) - 1) \<Longrightarrow> sorted xs"
  unfolding sorted_between_def sorted_iff_nth_mono
proof (intro allI impI)
  fix i j assume h: "\<forall>a b. 0 \<le> a \<and> a \<le> b \<and> b \<le> int (length xs) - 1 \<longrightarrow> xs ! nat a \<le> xs ! nat b"
    and "i \<le> j" "j < length xs"
  then have "0 \<le> int i \<and> int i \<le> int j \<and> int j \<le> int (length xs) - 1" by auto
  with h have "xs ! nat (int i) \<le> xs ! nat (int j)" by blast
  then show "xs ! i \<le> xs ! j" by simp
qed

lemma quickSort_sorts:
  "\<exists>ys. quickSort xs 0 (int (length xs) - 1) = Some ys \<and> sorted ys \<and> mset ys = mset xs"
proof -
  from quickSort_spec[of 0 "int (length xs) - 1" xs] obtain ys where
    q: "quickSort xs 0 (int (length xs) - 1) = Some ys" and oe: "outside_eq xs ys 0 (int (length xs) - 1)"
    and s: "sorted_between ys 0 (int (length xs) - 1)" by auto
  from oe have "length ys = length xs" "mset ys = mset xs" by (auto simp: outside_eq_def)
  with q s sorted_between_full[of ys] show ?thesis by auto
qed

section \<open>The quicksort recorder follows quickSort\<close>


lemma qs_replay_append:
  "qs_replay (es @ fs) xs = qs_replay es xs \<bind> qs_replay fs"
  by (induction es arbitrary: xs) (auto split: bind_splits)

lemma swap_same: "swap arr i i = Some arr' \<Longrightarrow> arr' = arr"
  by (auto simp: swap_def py_get_def py_set_def split: bind_splits)

lemma py_get_length_cong:
  "py_get xs i = Some v \<Longrightarrow> length ys = length xs \<Longrightarrow> \<exists>w. py_get ys i = Some w"
  by (auto simp: py_get_def py_index_def Let_def split: bind_splits if_splits)

lemma qs_partition_loop_sim:
  "partition_loop arr pivot i j high = Some (arr', i') \<Longrightarrow> q_data st = arr \<Longrightarrow>
   \<exists>st' evs. qs_partition_loop st pivot lo high i j = Some (st', i')
      \<and> q_data st' = arr' \<and> q_sorted_set st' = q_sorted_set st
      \<and> q_events st' = q_events st @ evs
      \<and> qs_replay evs arr = Some arr' \<and> list_all qs_swap_distinct evs"
proof (induction arr pivot i j high arbitrary: st rule: partition_loop.induct)
  case (1 arr pivot i j high)
  show ?case
  proof (cases "j < high")
    case False
    with "1.prems" show ?thesis
      by (subst qs_partition_loop.simps, subst (asm) partition_loop.simps) simp
  next
    case True
    from "1.prems"(1) True obtain x where x: "py_get arr j = Some x"
      by (subst (asm) partition_loop.simps) (auto split: bind_splits)
    define st1 where "st1 = qs_push st (\<lambda>d. QCompare d lo high high j)"
    have st1: "q_data st1 = arr" "q_sorted_set st1 = q_sorted_set st"
      "q_events st1 = q_events st @ [QCompare arr lo high high j]"
      using "1.prems"(2) by (simp_all add: st1_def qs_push_def)
    show ?thesis
    proof (cases "x < pivot")
      case ge: False
      from "1.prems"(1) True x ge have
        r: "partition_loop arr pivot i (j + 1) high = Some (arr', i')"
        by (subst (asm) partition_loop.simps) (auto split: bind_splits)
      from "1.IH"(2)[OF True x ge r st1(1)] obtain st' evs where
        h: "qs_partition_loop st1 pivot lo high i (j + 1) = Some (st', i')"
        "q_data st' = arr'" "q_sorted_set st' = q_sorted_set st1"
        "q_events st' = q_events st1 @ evs"
        "qs_replay evs arr = Some arr'" "list_all qs_swap_distinct evs" by blast
      have "qs_partition_loop st pivot lo high i j = Some (st', i')"
        using True x ge h(1) "1.prems"(2)
        by (subst qs_partition_loop.simps) (simp add: st1_def)
      moreover have "q_events st' = q_events st @ (QCompare arr lo high high j # evs)"
        using h(4) st1 by simp
      moreover have "qs_replay (QCompare arr lo high high j # evs) arr = Some arr'"
        using h(5) by simp
      ultimately show ?thesis using h(2,3,6) st1(2) by fastforce
    next
      case lt: True
      from "1.prems"(1) True x lt obtain arr1 where
        a1: "swap arr (i + 1) j = Some arr1" and
        r: "partition_loop arr1 pivot (i + 1) (j + 1) high = Some (arr', i')"
        by (subst (asm) partition_loop.simps) (auto split: bind_splits)
      show ?thesis
      proof (cases "i + 1 = j")
        case eq: True
        with a1 have arr1: "arr1 = arr" by (auto dest: swap_same)
        from "1.IH"(1)[OF True x lt a1 r, of st1] st1(1) arr1 obtain st' evs where
          h: "qs_partition_loop st1 pivot lo high (i + 1) (j + 1) = Some (st', i')"
          "q_data st' = arr'" "q_sorted_set st' = q_sorted_set st1"
          "q_events st' = q_events st1 @ evs"
          "qs_replay evs arr = Some arr'" "list_all qs_swap_distinct evs" by auto
        have "qs_partition_loop st pivot lo high i j = Some (st', i')"
          using True x lt eq h(1) "1.prems"(2)
          by (subst qs_partition_loop.simps) (simp add: st1_def)
        moreover have "q_events st' = q_events st @ (QCompare arr lo high high j # evs)"
          using h(4) st1 by simp
        moreover have "qs_replay (QCompare arr lo high high j # evs) arr = Some arr'"
          using h(5) by simp
        ultimately show ?thesis using h(2,3,6) st1(2) by fastforce
      next
        case ne: False
        define st2 where "st2 = (qs_push st1 (\<lambda>d. QSwap d lo high high (i + 1) j))\<lparr>q_data := arr1\<rparr>"
        have st2: "q_data st2 = arr1" "q_sorted_set st2 = q_sorted_set st"
          "q_events st2 = q_events st @ [QCompare arr lo high high j, QSwap arr lo high high (i + 1) j]"
          using st1 by (simp_all add: st2_def qs_push_def)
        from "1.IH"(1)[OF True x lt a1 r st2(1)] obtain st' evs where
          h: "qs_partition_loop st2 pivot lo high (i + 1) (j + 1) = Some (st', i')"
          "q_data st' = arr'" "q_sorted_set st' = q_sorted_set st2"
          "q_events st' = q_events st2 @ evs"
          "qs_replay evs arr1 = Some arr'" "list_all qs_swap_distinct evs" by blast
        let ?evs = "QCompare arr lo high high j # QSwap arr lo high high (i + 1) j # evs"
        have "qs_partition_loop st pivot lo high i j = Some (st', i')"
          using True x lt ne h(1) a1 "1.prems"(2) unfolding st2_def st1_def
          by (subst qs_partition_loop.simps) (simp add: qs_push_def)
        moreover have "q_events st' = q_events st @ ?evs"
          using h(4) st2 by simp
        moreover have "qs_replay ?evs arr = Some arr'"
          using h(5) a1 by simp
        moreover have "list_all qs_swap_distinct ?evs" using h(6) ne by simp
        ultimately show ?thesis using h(2,3) st2(2) by blast
      qed
    qed
  qed
qed


lemma qs_push_simps [simp]:
  "q_data (qs_push st f) = q_data st"
  "q_sorted_set (qs_push st f) = q_sorted_set st"
  "q_events (qs_push st f) = q_events st @ [f (q_data st)]"
  by (simp_all add: qs_push_def)

lemma qs_partition_sim:
  assumes "partition arr lo hi = Some (arr', p)" and "q_data st = arr"
  shows "\<exists>st' evs. qs_partition st lo hi = Some (st', p)
      \<and> q_data st' = arr' \<and> q_events st' = q_events st @ evs
      \<and> qs_replay evs arr = Some arr' \<and> list_all qs_swap_distinct evs"
proof -
  from assms(1) obtain pivot arr1 i where pv: "py_get arr hi = Some pivot"
    and l: "partition_loop arr pivot (lo - 1) lo hi = Some (arr1, i)"
    and sw: "swap arr1 (i + 1) hi = Some arr'" and p: "p = i + 1"
    by (auto simp: partition_def split: bind_splits)
  define st1 where "st1 = qs_push st (\<lambda>d. QPivot d lo hi hi)"
  have st1: "q_data st1 = arr" "q_events st1 = q_events st @ [QPivot arr lo hi hi]"
    using assms(2) by (simp_all add: st1_def qs_push_def)
  from qs_partition_loop_sim[OF l st1(1), of lo] obtain st2 evs where
    h: "qs_partition_loop st1 pivot lo hi (lo - 1) lo = Some (st2, i)"
    "q_data st2 = arr1" "q_events st2 = q_events st1 @ evs"
    "qs_replay evs arr = Some arr1" "list_all qs_swap_distinct evs" by blast
  from sw obtain y where "py_get arr1 (i + 1) = Some y"
    by (auto simp: swap_def split: bind_splits)
  with swap_length[OF sw] obtain w where w: "py_get arr' (i + 1) = Some w"
    using py_get_length_cong by metis
  show ?thesis
  proof (cases "i + 1 = hi")
    case True
    with sw have eq: "arr' = arr1" by (auto dest: swap_same)
    define st4 where "st4 = st2\<lparr>q_sorted_set := insert (i + 1) (q_sorted_set st2)\<rparr>"
    define st5 where "st5 = qs_push st4 (\<lambda>d. QSorted_idx d lo hi (i + 1) (q_sorted_set st4))"
    let ?evs = "QPivot arr lo hi hi # evs @ [QSorted_idx arr' lo hi (i + 1) (q_sorted_set st4)]"
    have "qs_partition st lo hi = Some (st5, p)"
      using pv h(1,2) True w eq p assms(2)
      by (simp add: qs_partition_def st1_def[symmetric] Let_def st4_def st5_def)
    moreover have "q_data st5 = arr'" using h(2) eq by (simp add: st5_def st4_def qs_push_def)
    moreover have "q_events st5 = q_events st @ ?evs"
      using h(2,3) st1 eq by (simp add: st5_def st4_def qs_push_def)
    moreover have "qs_replay ?evs arr = Some arr'"
      using h(4) eq by (simp add: qs_replay_append)
    moreover have "list_all qs_swap_distinct ?evs" using h(5) by simp
    ultimately show ?thesis by blast
  next
    case False
    define st3 where "st3 = (qs_push st2 (\<lambda>d. QSwap d lo hi hi (i + 1) hi))\<lparr>q_data := arr'\<rparr>"
    define st4 where "st4 = st3\<lparr>q_sorted_set := insert (i + 1) (q_sorted_set st3)\<rparr>"
    define st5 where "st5 = qs_push st4 (\<lambda>d. QSorted_idx d lo hi (i + 1) (q_sorted_set st4))"
    let ?evs = "QPivot arr lo hi hi # evs @ [QSwap arr1 lo hi hi (i + 1) hi,
        QSorted_idx arr' lo hi (i + 1) (q_sorted_set st4)]"
    have "qs_partition st lo hi = Some (st5, p)"
      using pv h(1,2) False w sw p assms(2)
      by (simp add: qs_partition_def st1_def[symmetric] Let_def st3_def st4_def st5_def)
    moreover have "q_data st5 = arr'" by (simp add: st5_def st4_def st3_def qs_push_def)
    moreover have "q_events st5 = q_events st @ ?evs"
      using h(2,3) st1 by (simp add: st5_def st4_def st3_def qs_push_def)
    moreover have "qs_replay ?evs arr = Some arr'"
      using h(4) sw by (simp add: qs_replay_append)
    moreover have "list_all qs_swap_distinct ?evs" using h(5) False by simp
    ultimately show ?thesis by blast
  qed
qed

lemma qs_sim:
  "0 \<le> lo \<Longrightarrow> hi < int (length arr) \<Longrightarrow> q_data st = arr \<Longrightarrow>
   \<exists>arr' st' evs. quickSort arr lo hi = Some arr' \<and> length arr' = length arr
      \<and> qs st lo hi = Some st'
      \<and> q_data st' = arr' \<and> q_events st' = q_events st @ evs
      \<and> qs_replay evs arr = Some arr' \<and> list_all qs_swap_distinct evs"
proof (induction arr lo hi arbitrary: st rule: quickSort.induct)
  case (1 arr lo hi)
  show ?case
  proof (cases "lo < hi")
    case False
    have q: "quickSort arr lo hi = Some arr" using False by (subst quickSort.simps) simp
    show ?thesis
    proof (cases "lo = hi")
      case True
      define st1 where "st1 = st\<lparr>q_sorted_set := insert lo (q_sorted_set st)\<rparr>"
      define st2 where "st2 = qs_push st1 (\<lambda>d. QSorted_idx d lo hi lo (q_sorted_set st1))"
      have g: "py_get arr lo = Some (arr ! nat lo)" using "1.prems" True by simp
      have "qs st lo hi = Some st2"
        using True g "1.prems"(3) by (subst qs.simps) (simp add: st1_def st2_def Let_def)
      moreover have "q_data st2 = arr" "q_events st2 = q_events st @ [QSorted_idx arr lo hi lo (q_sorted_set st1)]"
        using "1.prems"(3) by (simp_all add: st2_def st1_def qs_push_def)
      moreover have "qs_replay [QSorted_idx arr lo hi lo (q_sorted_set st1)] arr = Some arr"
        by simp
      moreover have "list_all qs_swap_distinct [QSorted_idx arr lo hi lo (q_sorted_set st1)]"
        by simp
      ultimately show ?thesis using q by blast
    next
      case ne: False
      have "qs st lo hi = Some st" using False ne by (subst qs.simps) simp
      moreover have "qs_replay [] arr = Some arr" "list_all qs_swap_distinct []" by simp_all
      ultimately show ?thesis using q "1.prems"(3) by (metis append_Nil2)
    qed
  next
    case True
    from partition_spec[of lo hi arr] "1.prems" True obtain arr1 p where
      pt: "partition arr lo hi = Some (arr1, p)" and oe1: "outside_eq arr arr1 lo hi"
      and pb: "lo \<le> p" "p \<le> hi" by auto
    from oe1 have len1: "length arr1 = length arr" by (simp add: outside_eq_def)
    from qs_partition_sim[OF pt "1.prems"(3)] obtain st1 evs1 where
      h1: "qs_partition st lo hi = Some (st1, p)" "q_data st1 = arr1"
      "q_events st1 = q_events st @ evs1" "qs_replay evs1 arr = Some arr1"
      "list_all qs_swap_distinct evs1" by blast
    have "\<exists>arr' st' evs. quickSort arr1 lo (p - 1) = Some arr' \<and> length arr' = length arr1
      \<and> qs st1 lo (p - 1) = Some st'
      \<and> q_data st' = arr' \<and> q_events st' = q_events st1 @ evs
      \<and> qs_replay evs arr1 = Some arr' \<and> list_all qs_swap_distinct evs"
      using "1.prems" pb len1 h1(2) by (intro "1.IH"(1)[OF True pt refl]) auto
    then obtain arr2 st2 evs2 where
      h2: "quickSort arr1 lo (p - 1) = Some arr2" "length arr2 = length arr1"
      "qs st1 lo (p - 1) = Some st2" "q_data st2 = arr2" "q_events st2 = q_events st1 @ evs2"
      "qs_replay evs2 arr1 = Some arr2" "list_all qs_swap_distinct evs2" by blast
    have "\<exists>arr' st' evs. quickSort arr2 (p + 1) hi = Some arr' \<and> length arr' = length arr2
      \<and> qs st2 (p + 1) hi = Some st'
      \<and> q_data st' = arr' \<and> q_events st' = q_events st2 @ evs
      \<and> qs_replay evs arr2 = Some arr' \<and> list_all qs_swap_distinct evs"
      using "1.prems" pb len1 h2(2,4) by (intro "1.IH"(2)[OF True pt refl h2(1)]) auto
    then obtain arr3 st3 evs3 where
      h3: "quickSort arr2 (p + 1) hi = Some arr3" "length arr3 = length arr2"
      "qs st2 (p + 1) hi = Some st3" "q_data st3 = arr3" "q_events st3 = q_events st2 @ evs3"
      "qs_replay evs3 arr2 = Some arr3" "list_all qs_swap_distinct evs3" by blast
    have "quickSort arr lo hi = Some arr3"
      using True pt h2(1) h3(1) by (subst quickSort.simps) simp
    moreover have "qs st lo hi = Some st3"
      using True h1(1) h2(3) h3(3) by (subst qs.simps) simp
    moreover have "q_events st3 = q_events st @ (evs1 @ evs2 @ evs3)"
      using h1(3) h2(5) h3(5) by simp
    moreover have "qs_replay (evs1 @ evs2 @ evs3) arr = Some arr3"
      using h1(4) h2(6) h3(6) by (simp add: qs_replay_append)
    moreover have "list_all qs_swap_distinct (evs1 @ evs2 @ evs3)"
      using h1(5) h2(7) h3(7) by simp
    ultimately show ?thesis using h3(2,4) h2(2) len1 by (metis (no_types, lifting))
  qed
qed

lemma qs_record_events_sim:
  "\<exists>evs ys. qs_record_events xs = Some evs \<and> quickSort xs 0 (int (length xs) - 1) = Some ys
     \<and> qs_replay evs xs = Some ys \<and> list_all qs_swap_distinct evs"
proof -
  define st where "st = \<lparr>q_data = xs, q_events = [], q_sorted_set = {}\<rparr>"
  have d: "q_data st = xs" and e: "q_events st = []" by (simp_all add: st_def)
  from qs_sim[of 0 "int (length xs) - 1" xs st, OF _ _ d] obtain ys st' evs where
    h: "quickSort xs 0 (int (length xs) - 1) = Some ys"
    "qs st 0 (int (length xs) - 1) = Some st'" "q_data st' = ys"
    "q_events st' = q_events st @ evs" "qs_replay evs xs = Some ys"
    "list_all qs_swap_distinct evs" by auto
  have "qs_record_events xs = Some (evs @ [QDone ys (q_sorted_set st')])"
    using h(2,3,4) e by (simp add: qs_record_events_def st_def[symmetric] d Let_def)
  moreover have "qs_replay (evs @ [QDone ys (q_sorted_set st')]) xs = Some ys"
    using h(5) by (simp add: qs_replay_append)
  moreover have "list_all qs_swap_distinct (evs @ [QDone ys (q_sorted_set st')])"
    using h(6) by simp
  ultimately show ?thesis using h(1) by blast
qed

section \<open>Correctness and stability of mergeSort\<close>


text \<open>The merge of two runs as a function on lists, for the proofs.\<close>

fun fmerge :: "('a \<Rightarrow> 'a \<Rightarrow> bool) \<Rightarrow> 'a list \<Rightarrow> 'a list \<Rightarrow> 'a list" where
  "fmerge le [] ys = ys"
| "fmerge le xs [] = xs"
| "fmerge le (x # xs) (y # ys) =
     (if le x y then x # fmerge le xs (y # ys) else y # fmerge le (x # xs) ys)"

lemma fmerge_Nil2 [simp]: "fmerge le xs [] = xs"
  by (cases xs) simp_all

lemma fmerge_length [simp]: "length (fmerge le xs ys) = length xs + length ys"
  by (induction le xs ys rule: fmerge.induct) simp_all

lemma fmerge_mset: "mset (fmerge le xs ys) = mset xs + mset ys"
  by (induction le xs ys rule: fmerge.induct) simp_all

lemma fmerge_set: "set (fmerge le xs ys) = set xs \<union> set ys"
  by (induction le xs ys rule: fmerge.induct) auto

lemma fmerge_sorted:
  fixes key :: "'a \<Rightarrow> 'k::linorder"
  shows "sorted (map key xs) \<Longrightarrow> sorted (map key ys) \<Longrightarrow>
         sorted (map key (fmerge (\<lambda>a b. key a \<le> key b) xs ys))"
  by (induction "\<lambda>a b. key a \<le> key b" xs ys rule: fmerge.induct)
     (auto simp: fmerge_set)

lemma fmerge_stable:
  fixes key :: "'a \<Rightarrow> 'k::linorder"
  shows "sorted (map key xs) \<Longrightarrow> sorted (map key ys) \<Longrightarrow>
         filter (\<lambda>x. key x = k) (fmerge (\<lambda>a b. key a \<le> key b) xs ys)
         = filter (\<lambda>x. key x = k) xs @ filter (\<lambda>x. key x = k) ys"
proof (induction "\<lambda>a b. key a \<le> key b" xs ys rule: fmerge.induct)
  case (3 x xs y ys)
  show ?case
  proof (cases "key x \<le> key y")
    case True
    with 3 show ?thesis by simp
  next
    case False
    then have lt: "key y < key x" by simp
    have "filter (\<lambda>x. key x = k) (x # xs) = []" if "key y = k"
    proof -
      from 3(3) have "\<forall>z\<in>set xs. key x \<le> key z" by auto
      with lt that show ?thesis by (auto simp: filter_empty_conv)
    qed
    with 3 False show ?thesis by auto
  qed
qed simp_all

lemma those_map_Some:
  "(\<And>x. x \<in> set xs \<Longrightarrow> f x = Some (g x)) \<Longrightarrow> those (map f xs) = Some (map g xs)"
  by (induction xs) simp_all

lemma py_get_mid:
  assumes "0 \<le> i" "i < int (length X)"
  shows "py_get (A @ X @ B) (int (length A) + i) = Some (X ! nat i)"
proof -
  have n: "nat (int (length A) + i) = length A + nat i" using assms by (simp add: nat_add_distrib)
  have l: "nat i < length X" using assms by linarith
  have "py_get (A @ X @ B) (int (length A) + i) = Some ((A @ X @ B) ! nat (int (length A) + i))"
    using assms by (intro py_get_in) auto
  also have "(A @ X @ B) ! nat (int (length A) + i) = X ! nat i"
    using l by (simp add: n nth_append)
  finally show ?thesis .
qed

lemma copy_run_mid:
  assumes "start = int (length A)" "n = int (length X)"
  shows "copy_run (A @ X @ B) start n = Some X"
proof -
  have "those (map (\<lambda>i. py_get (A @ X @ B) (start + int i)) [0..<nat n])
        = Some (map (\<lambda>i. X ! i) [0..<nat n])"
  proof (rule those_map_Some)
    fix x assume "x \<in> set [0..<nat n]"
    then have "0 \<le> int x" "int x < int (length X)" using assms by auto
    from py_get_mid[OF this, of A B] assms
    show "py_get (A @ X @ B) (start + int x) = Some (X ! x)" by simp
  qed
  moreover have "map (\<lambda>i. X ! i) [0..<nat n] = X" using assms(2) by (simp add: map_nth)
  ultimately show ?thesis by (simp add: copy_run_def)
qed

lemma py_set_mid:
  "py_set (P @ q # Q) (int (length P)) x = Some (P @ x # Q)"
  by (simp add: py_set_def py_index_def)

lemma merge_rest_spec:
  "arr = P @ Q @ B \<Longrightarrow> 0 \<le> i \<Longrightarrow> i \<le> n1 \<Longrightarrow> n1 = int (length L) \<Longrightarrow> k = int (length P) \<Longrightarrow>
   int (length Q) = n1 - i \<Longrightarrow>
   merge_rest arr L n1 i k = Some (P @ drop (nat i) L @ B, k + (n1 - i))"
proof (induction arr L n1 i k arbitrary: P Q rule: merge_rest.induct)
  case (1 arr L n1 i k)
  show ?case
  proof (cases "i < n1")
    case False
    with "1.prems"(3) have e: "i = n1" by linarith
    with "1.prems"(6) have "length Q = 0" by simp
    then have "Q = []" by simp
    moreover have "drop (nat i) L = []" using e "1.prems"(4) by simp
    ultimately show ?thesis using False "1.prems"(1) e by (subst merge_rest.simps) simp
  next
    case True
    with "1.prems" obtain q Q' where Q: "Q = q # Q'" by (cases Q) auto
    have g: "py_get L i = Some (L ! nat i)" using True "1.prems" by simp
    have s: "py_set arr k (L ! nat i) = Some ((P @ [L ! nat i]) @ Q' @ B)"
      using Q "1.prems" py_set_mid[of P q "Q' @ B"] by simp
    have "merge_rest ((P @ [L ! nat i]) @ Q' @ B) L n1 (i + 1) (k + 1)
          = Some ((P @ [L ! nat i]) @ drop (nat (i + 1)) L @ B, k + 1 + (n1 - (i + 1)))"
      using True "1.prems" Q by (intro "1.IH"[OF True g s]) auto
    moreover have "drop (nat i) L = L ! nat i # drop (nat (i + 1)) L"
      using True "1.prems" by (simp add: Cons_nth_drop_Suc nat_add_distrib)
    ultimately show ?thesis using True g s
      by (subst merge_rest.simps) simp
  qed
qed


lemma merge_loops_spec:
  "arr = P @ Q @ B \<Longrightarrow> 0 \<le> i \<Longrightarrow> i \<le> n1 \<Longrightarrow> 0 \<le> j \<Longrightarrow> j \<le> n2 \<Longrightarrow>
   n1 = int (length L) \<Longrightarrow> n2 = int (length R) \<Longrightarrow> k = int (length P) \<Longrightarrow>
   int (length Q) = (n1 - i) + (n2 - j) \<Longrightarrow>
   (merge_both le arr L R n1 n2 i j k \<bind> (\<lambda>(arr1, i1, j1, k1).
      merge_rest arr1 L n1 i1 k1 \<bind> (\<lambda>(arr2, k2).
        merge_rest arr2 R n2 j1 k2 \<bind> (\<lambda>(arr3, k3). Some arr3))))
   = Some (P @ fmerge le (drop (nat i) L) (drop (nat j) R) @ B)"
proof (induction le arr L R n1 n2 i j k arbitrary: P Q rule: merge_both.induct)
  case (1 le arr L R n1 n2 i j k)
  note pr = "1.prems"
  show ?case
  proof (cases "i < n1 \<and> j < n2")
    case False
    have mb: "merge_both le arr L R n1 n2 i j k = Some (arr, i, j, k)"
      using False by (subst merge_both.simps) auto
    show ?thesis
    proof (cases "i < n1")
      case i: False
      with pr(3) have e: "i = n1" by linarith
      have dl: "drop (nat i) L = []" using e pr(6) by simp
      have r1: "merge_rest arr L n1 i k = Some (arr, k)"
        using i by (subst merge_rest.simps) simp
      have lq: "int (length Q) = n2 - j" using pr(9) e by simp
      have r2: "merge_rest arr R n2 j k = Some (P @ drop (nat j) R @ B, k + (n2 - j))"
        by (rule merge_rest_spec[OF pr(1) pr(4) pr(5) pr(7) pr(8) lq])
      show ?thesis using mb r1 r2 dl by simp
    next
      case i: True
      with False pr(5) have e: "j = n2" by linarith
      have dr: "drop (nat j) R = []" using e pr(7) by simp
      have lq: "int (length Q) = n1 - i" using pr(9) e by simp
      have r1: "merge_rest arr L n1 i k = Some (P @ drop (nat i) L @ B, k + (n1 - i))"
        by (rule merge_rest_spec[OF pr(1) pr(2) pr(3) pr(6) pr(8) lq])
      have r2: "merge_rest (P @ drop (nat i) L @ B) R n2 j (k + (n1 - i))
                = Some (P @ drop (nat i) L @ B, k + (n1 - i))"
        using e by (subst merge_rest.simps) simp
      show ?thesis using mb r1 r2 dr by simp
    qed
  next
    case True
    with pr obtain q Q' where Q: "Q = q # Q'" by (cases Q) auto
    let ?x = "L ! nat i" and ?y = "R ! nat j"
    have gx: "py_get L i = Some ?x" and gy: "py_get R j = Some ?y"
      using True pr by simp_all
    have ni: "nat i < length L" "nat j < length R" using True pr by auto
    have dl: "drop (nat i) L = ?x # drop (nat (i + 1)) L"
      using ni pr by (simp add: Cons_nth_drop_Suc nat_add_distrib)
    have dr: "drop (nat j) R = ?y # drop (nat (j + 1)) R"
      using ni pr by (simp add: Cons_nth_drop_Suc nat_add_distrib)
    show ?thesis
    proof (cases "le ?x ?y")
      case le: True
      have s: "py_set arr k ?x = Some ((P @ [?x]) @ Q' @ B)"
        using Q pr py_set_mid[of P q "Q' @ B"] by simp
      have "(merge_both le ((P @ [?x]) @ Q' @ B) L R n1 n2 (i + 1) j (k + 1) \<bind> (\<lambda>(arr1, i1, j1, k1).
          merge_rest arr1 L n1 i1 k1 \<bind> (\<lambda>(arr2, k2).
            merge_rest arr2 R n2 j1 k2 \<bind> (\<lambda>(arr3, k3). Some arr3))))
        = Some ((P @ [?x]) @ fmerge le (drop (nat (i + 1)) L) (drop (nat j) R) @ B)"
        using True pr Q by (intro "1.IH"(1)[OF True gx gy le s]) auto
      moreover have "fmerge le (drop (nat i) L) (drop (nat j) R)
                     = ?x # fmerge le (drop (nat (i + 1)) L) (drop (nat j) R)"
        using le by (subst dl, subst dr, subst dr) simp
      ultimately show ?thesis using True gx gy le s
        by (subst merge_both.simps) simp
    next
      case nle: False
      have s: "py_set arr k ?y = Some ((P @ [?y]) @ Q' @ B)"
        using Q pr py_set_mid[of P q "Q' @ B"] by simp
      have "(merge_both le ((P @ [?y]) @ Q' @ B) L R n1 n2 i (j + 1) (k + 1) \<bind> (\<lambda>(arr1, i1, j1, k1).
          merge_rest arr1 L n1 i1 k1 \<bind> (\<lambda>(arr2, k2).
            merge_rest arr2 R n2 j1 k2 \<bind> (\<lambda>(arr3, k3). Some arr3))))
        = Some ((P @ [?y]) @ fmerge le (drop (nat i) L) (drop (nat (j + 1)) R) @ B)"
        using True pr Q by (intro "1.IH"(2)[OF True gx gy nle s]) auto
      moreover have "fmerge le (drop (nat i) L) (drop (nat j) R)
                     = ?y # fmerge le (drop (nat i) L) (drop (nat (j + 1)) R)"
        using nle by (subst dl, subst dr, subst dl) simp
      ultimately show ?thesis using True gx gy nle s
        by (subst merge_both.simps) simp
    qed
  qed
qed

lemma merge_spec:
  assumes "left = int (length A)" "mid = left + int (length X) - 1" "right = mid + int (length Y)"
  shows "merge le (A @ X @ Y @ B) left mid right = Some (A @ fmerge le X Y @ B)"
proof -
  have c1: "copy_run (A @ X @ Y @ B) left (mid - left + 1) = Some X"
    using assms copy_run_mid[of left A "mid - left + 1" X "Y @ B"] by simp
  have c2: "copy_run (A @ X @ Y @ B) (mid + 1) (right - mid) = Some Y"
    using assms copy_run_mid[of "mid + 1" "A @ X" "right - mid" Y B] by simp
  have "(merge_both le (A @ (X @ Y) @ B) X Y (mid - left + 1) (right - mid) 0 0 left \<bind> (\<lambda>(arr1, i1, j1, k1).
      merge_rest arr1 X (mid - left + 1) i1 k1 \<bind> (\<lambda>(arr2, k2).
        merge_rest arr2 Y (right - mid) j1 k2 \<bind> (\<lambda>(arr3, k3). Some arr3))))
    = Some (A @ fmerge le (drop (nat 0) X) (drop (nat 0) Y) @ B)"
    using assms by (intro merge_loops_spec) auto
  then show ?thesis using c1 c2 by (simp add: merge_def Let_def)
qed

definition sorted_stable :: "('a \<Rightarrow> 'k::linorder) \<Rightarrow> 'a list \<Rightarrow> 'a list \<Rightarrow> bool" where
  "sorted_stable key xs ys \<longleftrightarrow>
     mset ys = mset xs \<and> sorted (map key ys) \<and>
     (\<forall>k. filter (\<lambda>x. key x = k) ys = filter (\<lambda>x. key x = k) xs)"

lemma sorted_stable_merge:
  "sorted_stable key X1 Y1 \<Longrightarrow> sorted_stable key X2 Y2 \<Longrightarrow>
   sorted_stable key (X1 @ X2) (fmerge (\<lambda>a b. key a \<le> key b) Y1 Y2)"
  by (simp add: sorted_stable_def fmerge_mset fmerge_sorted fmerge_stable)

lemma sorted_stable_short: "length X \<le> 1 \<Longrightarrow> sorted_stable key X X"
  by (cases X) (auto simp: sorted_stable_def)

lemma mergeSort_spec:
  fixes key :: "'a \<Rightarrow> 'k::linorder"
  shows "arr = A @ X @ B \<Longrightarrow> left = int (length A) \<Longrightarrow> int (length X) = right - left + 1 \<Longrightarrow>
   \<exists>Y. mergeSort (\<lambda>a b. key a \<le> key b) arr left right = Some (A @ Y @ B)
       \<and> length Y = length X \<and> sorted_stable key X Y"
proof (induction "\<lambda>a b. key a \<le> key b" arr left right arbitrary: A X B rule: mergeSort.induct)
  case (1 arr left right)
  note pr = "1.prems"
  show ?case
  proof (cases "left < right")
    case False
    with pr(3) have "length X \<le> 1" by linarith
    then have "sorted_stable key X X" by (rule sorted_stable_short)
    with False pr(1) show ?thesis by (subst mergeSort.simps) auto
  next
    case True
    define mid where "mid = (left + right) div 2"
    have mb: "left \<le> mid" "mid < right" using True by (auto simp: mid_def)
    define X1 where "X1 = take (nat (mid - left + 1)) X"
    define X2 where "X2 = drop (nat (mid - left + 1)) X"
    have X: "X = X1 @ X2" by (simp add: X1_def X2_def)
    have l1: "int (length X1) = mid - left + 1" using mb pr(3) by (simp add: X1_def)
    have l2: "int (length X2) = right - (mid + 1) + 1" using mb pr(3) by (simp add: X2_def)
    have a1: "arr = A @ X1 @ (X2 @ B)" using pr(1) X by simp
    from "1.hyps"(1)[OF True mid_def a1 pr(2) l1] obtain Y1 where
      m1: "mergeSort (\<lambda>a b. key a \<le> key b) arr left mid = Some (A @ Y1 @ X2 @ B)"
      and ly1: "length Y1 = length X1" and s1: "sorted_stable key X1 Y1" by blast
    have a2: "A @ Y1 @ X2 @ B = (A @ Y1) @ X2 @ B" by simp
    have lf2: "mid + 1 = int (length (A @ Y1))" using pr(2) l1 ly1 by simp
    from "1.hyps"(2)[OF True mid_def m1 a2 lf2 l2] obtain Y2 where
      m2: "mergeSort (\<lambda>a b. key a \<le> key b) (A @ Y1 @ X2 @ B) (mid + 1) right
           = Some ((A @ Y1) @ Y2 @ B)"
      and ly2: "length Y2 = length X2" and s2: "sorted_stable key X2 Y2" by blast
    have mg: "merge (\<lambda>a b. key a \<le> key b) (A @ Y1 @ Y2 @ B) left mid right
              = Some (A @ fmerge (\<lambda>a b. key a \<le> key b) Y1 Y2 @ B)"
      using pr(2) l1 l2 ly1 ly2 by (intro merge_spec) auto
    have "mergeSort (\<lambda>a b. key a \<le> key b) arr left right
          = Some (A @ fmerge (\<lambda>a b. key a \<le> key b) Y1 Y2 @ B)"
      using True m1 m2 mg by (subst mergeSort.simps) (simp add: mid_def[symmetric] Let_def)
    moreover have "length (fmerge (\<lambda>a b. key a \<le> key b) Y1 Y2) = length X"
      using ly1 ly2 X by simp
    moreover have "sorted_stable key X (fmerge (\<lambda>a b. key a \<le> key b) Y1 Y2)"
      unfolding X using s1 s2 by (rule sorted_stable_merge)
    ultimately show ?thesis by blast
  qed
qed

lemma mergeSort_key_sorts:
  fixes key :: "'a \<Rightarrow> 'k::linorder"
  shows "\<exists>ys. mergeSort (\<lambda>a b. key a \<le> key b) xs 0 (int (length xs) - 1) = Some ys
          \<and> sorted_stable key xs ys"
  using mergeSort_spec[of xs "[]" xs "[]" 0 "int (length xs) - 1" key] by auto

section \<open>What bucket\_sort computes\<close>


text \<open>Insertion of a key into a list from the right, and the sort it gives; for the proofs.\<close>

definition ins_right :: "'a::linorder \<Rightarrow> 'a list \<Rightarrow> 'a list" where
  "ins_right key P = rev (dropWhile (\<lambda>x. x > key) (rev P)) @ key # rev (takeWhile (\<lambda>x. x > key) (rev P))"

definition fisort :: "'a::linorder list \<Rightarrow> 'a list" where
  "fisort xs = foldl (\<lambda>acc k. ins_right k acc) [] xs"

lemma ins_right_mset: "mset (ins_right key P) = add_mset key (mset P)"
proof -
  have "mset (rev (dropWhile (\<lambda>x. x > key) (rev P))) + mset (rev (takeWhile (\<lambda>x. x > key) (rev P)))
        = mset (rev P)"
    by (metis add.commute mset_append mset_rev takeWhile_dropWhile_id)
  then show ?thesis by (simp add: ins_right_def)
qed

lemma ins_right_length [simp]: "length (ins_right key P) = Suc (length P)"
  by (metis ins_right_mset size_mset size_add_mset)

lemma ins_right_sorted:
  assumes "sorted P"
  shows "sorted (ins_right key P)"
proof -
  let ?hi = "takeWhile (\<lambda>x. x > key) (rev P)" and ?lo = "dropWhile (\<lambda>x. x > key) (rev P)"
  have dec: "rev P = ?hi @ ?lo" by simp
  then have P: "P = rev ?lo @ rev ?hi" by (metis rev_append rev_rev_ident)
  have hi: "\<forall>x\<in>set ?hi. key < x" by (auto dest: set_takeWhileD)
  have lo: "\<forall>x\<in>set ?lo. x \<le> key"
  proof (cases ?lo)
    case Nil
    then have "set ?lo = {}" by (metis list.set(1))
    then show ?thesis by (metis empty_iff)
  next
    case (Cons y ys)
    then have "\<not> key < y" by (metis hd_dropWhile list.distinct(1) list.sel(1))
    moreover have "sorted (rev ?lo)" using assms P by (metis sorted_append)
    then have "\<forall>x\<in>set ?lo. x \<le> y" using Cons by (auto simp: sorted_append)
    ultimately show ?thesis by auto
  qed
  have s1: "sorted (rev ?lo)" and s2: "sorted (rev ?hi)"
    using assms P by (metis sorted_append)+
  show ?thesis
    unfolding ins_right_def using s1 s2 hi lo
    by (fastforce simp: sorted_append)
qed

lemma fisort_snoc: "fisort (xs @ [x]) = ins_right x (fisort xs)"
  by (simp add: fisort_def)

lemma fisort_mset: "mset (fisort xs) = mset xs"
  by (induction xs rule: rev_induct) (simp_all add: fisort_snoc ins_right_mset, simp add: fisort_def)

lemma fisort_sorted: "sorted (fisort xs)"
  by (induction xs rule: rev_induct) (simp_all add: fisort_snoc ins_right_sorted, simp add: fisort_def)

lemma fisort_length [simp]: "length (fisort xs) = length xs"
  by (metis fisort_mset size_mset)

lemma isort_shift_spec:
  "bucket = P @ h # S \<Longrightarrow> j = int (length P) - 1 \<Longrightarrow>
   \<exists>h'. isort_shift bucket key j
     = Some (rev (dropWhile (\<lambda>x. x > key) (rev P)) @ h' # rev (takeWhile (\<lambda>x. x > key) (rev P)) @ S,
             int (length (dropWhile (\<lambda>x. x > key) (rev P))) - 1)"
proof (induction P arbitrary: bucket h S j rule: rev_induct)
  case Nil
  then show ?case by (subst isort_shift.simps) simp
next
  case (snoc x P)
  have j: "j = int (length P)" "0 \<le> j" using snoc.prems by auto
  have g: "py_get bucket j = Some x"
    using snoc.prems(1) j py_get_mid[of 0 "[x]" P "h # S"] by simp
  show ?case
  proof (cases "x > key")
    case False
    then show ?thesis using g j snoc.prems
      by (subst isort_shift.simps) simp
  next
    case True
    have s: "py_set bucket (j + 1) x = Some (P @ x # (x # S))"
    proof -
      have "py_set ((P @ [x]) @ h # S) (int (length (P @ [x]))) x = Some ((P @ [x]) @ x # S)"
        by (rule py_set_mid)
      moreover have "j + 1 = int (length (P @ [x]))" using j by simp
      moreover have "bucket = (P @ [x]) @ h # S" using snoc.prems(1) by simp
      ultimately show ?thesis by (simp only: append_assoc append_Cons append_Nil)
    qed
    from snoc.IH[of "P @ x # (x # S)" x "x # S" "j - 1"] j obtain h' where
      "isort_shift (P @ x # (x # S)) key (j - 1)
       = Some (rev (dropWhile (\<lambda>x. x > key) (rev P)) @ h' # rev (takeWhile (\<lambda>x. x > key) (rev P)) @ x # S,
             int (length (dropWhile (\<lambda>x. x > key) (rev P))) - 1)" by auto
    then show ?thesis using True g s j
      by (subst isort_shift.simps) simp
  qed
qed

lemma isort_loop_spec:
  "bucket = P @ S \<Longrightarrow> i = int (length P) \<Longrightarrow> hi = int (length bucket) \<Longrightarrow>
   isort_loop bucket i hi = Some (foldl (\<lambda>acc k. ins_right k acc) P S)"
proof (induction S arbitrary: bucket P i)
  case Nil
  then show ?case by (subst isort_loop.simps) simp
next
  case (Cons key S)
  have lt: "i < hi" using Cons.prems by simp
  have g: "py_get bucket i = Some key"
    using Cons.prems py_get_mid[of 0 "[key]" P S] by simp
  let ?lo = "rev (dropWhile (\<lambda>x. x > key) (rev P))" and ?hi = "rev (takeWhile (\<lambda>x. x > key) (rev P))"
  from isort_shift_spec[of bucket P key S "i - 1" key] Cons.prems obtain h' where
    sh: "isort_shift bucket key (i - 1) = Some (?lo @ h' # ?hi @ S, int (length ?lo) - 1)"
    by auto
  have st: "py_set (?lo @ h' # ?hi @ S) (int (length ?lo) - 1 + 1) key = Some (?lo @ key # ?hi @ S)"
    using py_set_mid[of ?lo h' "?hi @ S" key] by simp
  have len: "length (?lo @ key # ?hi) = Suc (length P)"
    using ins_right_length[of key P] by (simp add: ins_right_def)
  have "isort_loop ((?lo @ key # ?hi) @ S) (i + 1) hi
        = Some (foldl (\<lambda>acc k. ins_right k acc) (?lo @ key # ?hi) S)"
    using Cons.prems len by (intro Cons.IH) auto
  then show ?case using lt g sh st
    by (subst isort_loop.simps) (simp add: ins_right_def)
qed

lemma insertion_sort_eq: "insertion_sort xs = Some (fisort xs)"
proof (cases xs)
  case Nil
  then show ?thesis by (subst insertion_sort_def, subst isort_loop.simps) (simp add: fisort_def)
next
  case (Cons x S)
  have "isort_loop xs 1 (int (length xs)) = Some (foldl (\<lambda>acc k. ins_right k acc) [x] S)"
    using Cons by (intro isort_loop_spec) auto
  moreover have "ins_right x [] = [x]" by (simp add: ins_right_def)
  ultimately show ?thesis using Cons by (simp add: insertion_sort_def fisort_def)
qed

lemma sort_buckets_eq: "sort_buckets bs = Some (map fisort bs)"
  by (induction bs) (simp_all add: insertion_sort_eq)


text \<open>The bucket that a value lands in, as a position of the bucket list.\<close>

definition bslot :: "int \<Rightarrow> rat \<Rightarrow> nat" where
  "bslot n v = (let bi = bucket_index n v in nat (if bi < 0 then n + bi else bi))"

lemma bucket_index_le: "bucket_index n v \<le> n - 1"
  by (simp add: bucket_index_def)

lemma py_index_wrap:
  "- int (length xs) \<le> i \<Longrightarrow> i < int (length xs) \<Longrightarrow>
   py_index xs i = Some (nat (if i < 0 then int (length xs) + i else i))"
  by (auto simp: py_index_def Let_def)

lemma scatter_spec:
  "length buckets = nat n \<Longrightarrow> \<forall>v\<in>set vals. - n \<le> bucket_index n v \<Longrightarrow>
   scatter buckets n vals
   = Some (map (\<lambda>b. buckets ! b @ filter (\<lambda>v. bslot n v = b) vals) [0..<nat n])"
proof (induction vals arbitrary: buckets)
  case Nil
  then show ?case using map_nth[of buckets] by simp
next
  case (Cons v vals)
  let ?bi = "bucket_index n v"
  have lo: "- n \<le> ?bi" using Cons.prems by simp
  have hi: "?bi \<le> n - 1" by (rule bucket_index_le)
  from lo hi have n: "0 < n" by linarith
  have len: "int (length buckets) = n" using Cons.prems(1) n by simp
  have ix: "py_index buckets ?bi = Some (bslot n v)"
    using py_index_wrap[of buckets ?bi] lo hi len by (simp add: bslot_def Let_def)
  have k: "bslot n v < length buckets"
    using lo hi len by (auto simp: bslot_def Let_def)
  let ?b1 = "buckets[bslot n v := buckets ! bslot n v @ [v]]"
  have l1: "length ?b1 = nat n" using Cons.prems(1) by simp
  have "scatter ?b1 n vals
        = Some (map (\<lambda>b. ?b1 ! b @ filter (\<lambda>v. bslot n v = b) vals) [0..<nat n])"
    using Cons.prems(2) by (intro Cons.IH[OF l1]) simp
  moreover have "map (\<lambda>b. ?b1 ! b @ filter (\<lambda>v. bslot n v = b) vals) [0..<nat n]
        = map (\<lambda>b. buckets ! b @ filter (\<lambda>v. bslot n v = b) (v # vals)) [0..<nat n]"
    using Cons.prems(1) k by (intro map_cong) (auto simp: nth_list_update)
  ultimately show ?case using ix
    by (simp add: Let_def py_get_def py_set_def)
qed

lemma scatter_length:
  "scatter buckets n vals = Some buckets' \<Longrightarrow> length buckets' = length buckets"
  by (induction vals arbitrary: buckets)
     (auto simp: Let_def split: bind_splits dest!: py_set_length)

lemma scatter_fail:
  "length buckets = nat n \<Longrightarrow> 0 \<le> n \<Longrightarrow> \<exists>v\<in>set vals. bucket_index n v < - n \<Longrightarrow>
   scatter buckets n vals = None"
proof (induction vals arbitrary: buckets)
  case Nil
  then show ?case by simp
next
  case (Cons v vals)
  show ?case
  proof (cases "bucket_index n v < - n")
    case True
    then have "py_get buckets (bucket_index n v) = None"
      using Cons.prems(1,2) by (auto simp: py_get_def py_index_def Let_def)
    then show ?thesis by (simp add: Let_def)
  next
    case False
    with Cons.prems(3) have r: "\<exists>v\<in>set vals. bucket_index n v < - n" by simp
    show ?thesis
    proof (cases "py_get buckets (bucket_index n v)")
      case None
      then show ?thesis by (simp add: Let_def)
    next
      case (Some b)
      show ?thesis
      proof (cases "py_set buckets (bucket_index n v) (b @ [v])")
        case None
        with Some show ?thesis by (simp add: Let_def)
      next
        case s: (Some buckets1)
        then have "length buckets1 = nat n" using Cons.prems(1) by (auto dest: py_set_length)
        from Cons.IH[OF this Cons.prems(2) r] Some s show ?thesis by (simp add: Let_def)
      qed
    qed
  qed
qed

lemma gather_bucket_spec:
  "arr = P @ Q @ B \<Longrightarrow> index = int (length P) \<Longrightarrow> length Q = length vals \<Longrightarrow>
   gather_bucket arr index vals = Some (P @ vals @ B, index + int (length vals))"
proof (induction vals arbitrary: arr P Q index)
  case Nil
  then show ?case by simp
next
  case (Cons v vals)
  then obtain q Q' where Q: "Q = q # Q'" by (cases Q) auto
  have s: "py_set arr index v = Some ((P @ [v]) @ Q' @ B)"
    using Cons.prems Q py_set_mid[of P q "Q' @ B" v] by simp
  have "gather_bucket ((P @ [v]) @ Q' @ B) (index + 1) vals
        = Some ((P @ [v]) @ vals @ B, index + 1 + int (length vals))"
    using Cons.prems Q by (intro Cons.IH[of _ "P @ [v]" Q']) auto
  with s show ?case by simp
qed

lemma gather_spec:
  "arr = P @ Q \<Longrightarrow> index = int (length P) \<Longrightarrow> length Q = length (concat bs) \<Longrightarrow>
   gather arr index bs = Some (P @ concat bs)"
proof (induction bs arbitrary: arr P Q index)
  case Nil
  then show ?case by simp
next
  case (Cons b bs)
  define Q1 where "Q1 = take (length b) Q"
  define Q2 where "Q2 = drop (length b) Q"
  have Q: "Q = Q1 @ Q2" "length Q1 = length b" "length Q2 = length (concat bs)"
    using Cons.prems(3) by (simp_all add: Q1_def Q2_def)
  have g: "gather_bucket arr index b = Some (P @ b @ Q2, index + int (length b))"
    using Cons.prems Q by (intro gather_bucket_spec[of _ P Q1 Q2]) auto
  have "gather ((P @ b) @ Q2) (index + int (length b)) bs = Some ((P @ b) @ concat bs)"
    using Cons.prems Q by (intro Cons.IH[of _ "P @ b" Q2]) auto
  with g show ?case by simp
qed

lemma mset_buckets:
  "(\<Sum>b\<leftarrow>[0..<n]. mset (filter (\<lambda>v. f v = b) xs)) = mset (filter (\<lambda>v. f v < n) xs)"
proof (induction n)
  case 0
  then show ?case by simp
next
  case (Suc n)
  have "mset (filter (\<lambda>v. f v < n) xs) + mset (filter (\<lambda>v. f v = n) xs)
        = mset (filter (\<lambda>v. f v < Suc n) xs)"
    by (induction xs) auto
  with Suc show ?case by simp
qed

lemma mset_concat_buckets:
  assumes "\<forall>v\<in>set xs. f v < n"
  shows "mset (concat (map (\<lambda>b. fisort (filter (\<lambda>v. f v = b) xs)) [0..<n])) = mset xs"
proof -
  have "mset (concat (map (\<lambda>b. fisort (filter (\<lambda>v. f v = b) xs)) [0..<n]))
        = (\<Sum>b\<leftarrow>[0..<n]. mset (filter (\<lambda>v. f v = b) xs))"
    by (simp add: mset_concat comp_def fisort_mset)
  also have "\<dots> = mset (filter (\<lambda>v. f v < n) xs)" by (rule mset_buckets)
  also have "filter (\<lambda>v. f v < n) xs = xs" using assms by (simp add: filter_id_conv)
  finally show ?thesis .
qed

lemma sorted_concat_buckets:
  assumes "\<And>b. sorted (g b)"
    and "\<And>b c x y. b < c \<Longrightarrow> c < n \<Longrightarrow> x \<in> set (g b) \<Longrightarrow> y \<in> set (g c) \<Longrightarrow> x \<le> y"
  shows "sorted (concat (map g [0..<n]))"
  using assms(2)
proof (induction n)
  case 0
  then show ?case by simp
next
  case (Suc n)
  have "sorted (concat (map g [0..<n]))" using Suc.prems by (intro Suc.IH) auto
  moreover have "\<forall>x\<in>set (concat (map g [0..<n])). \<forall>y\<in>set (g n). x \<le> y"
    using Suc.prems by auto
  ultimately show ?case using assms(1) by (simp add: sorted_append)
qed

lemma bucket_sort_spec:
  assumes "\<forall>v\<in>set arr. - int (length arr) \<le> bucket_index (int (length arr)) v"
  shows "bucket_sort arr
         = Some (concat (map (\<lambda>b. fisort (filter (\<lambda>v. bslot (int (length arr)) v = b) arr))
                   [0..<length arr]))
       \<and> mset (concat (map (\<lambda>b. fisort (filter (\<lambda>v. bslot (int (length arr)) v = b) arr))
                   [0..<length arr])) = mset arr"
proof -
  let ?n = "int (length arr)"
  let ?bs = "map (\<lambda>b. filter (\<lambda>v. bslot ?n v = b) arr) [0..<length arr]"
  have sc: "scatter (replicate (length arr) []) ?n arr = Some ?bs"
    using scatter_spec[of "replicate (length arr) []" ?n arr] assms by simp
  have sb: "sort_buckets ?bs = Some (map fisort ?bs)" by (rule sort_buckets_eq)
  have in_range: "\<forall>v\<in>set arr. bslot ?n v < length arr"
  proof
    fix v assume "v \<in> set arr"
    with assms have "- ?n \<le> bucket_index ?n v" by blast
    moreover have "bucket_index ?n v \<le> ?n - 1" by (rule bucket_index_le)
    ultimately show "bslot ?n v < length arr" by (auto simp: bslot_def Let_def)
  qed
  have ms: "mset (concat (map fisort ?bs)) = mset arr"
    using mset_concat_buckets[OF in_range] by (simp add: comp_def)
  then have "length (concat (map fisort ?bs)) = length arr" by (metis size_mset)
  then have "gather arr 0 (map fisort ?bs) = Some ([] @ concat (map fisort ?bs))"
    by (intro gather_spec[of arr "[]" arr]) auto
  with sc sb ms show ?thesis by (simp add: bucket_sort_def Let_def comp_def)
qed

lemma bucket_sort_None_iff:
  "bucket_sort arr = None \<longleftrightarrow>
   (\<exists>v\<in>set arr. bucket_index (int (length arr)) v < - int (length arr))"
proof
  assume "bucket_sort arr = None"
  then show "\<exists>v\<in>set arr. bucket_index (int (length arr)) v < - int (length arr)"
    using bucket_sort_spec[of arr] by fastforce
next
  assume "\<exists>v\<in>set arr. bucket_index (int (length arr)) v < - int (length arr)"
  then have "scatter (replicate (length arr) []) (int (length arr)) arr = None"
    by (intro scatter_fail) auto
  then show "bucket_sort arr = None" by (simp add: bucket_sort_def Let_def)
qed


lemma bucket_index_nonneg: "0 < n \<Longrightarrow> 0 \<le> v \<Longrightarrow> 0 \<le> bucket_index n v"
proof -
  assume n: "0 < n" and v: "0 \<le> v"
  then have "0 \<le> of_int n * v" by simp
  then have "py_int (of_int n * v) = \<lfloor>of_int n * v\<rfloor>" "0 \<le> \<lfloor>of_int n * v\<rfloor>"
    by (simp_all add: py_int_def)
  with n show ?thesis by (simp add: bucket_index_def)
qed

lemma bucket_index_mono:
  assumes "0 < n" "0 \<le> v" "v \<le> w"
  shows "bucket_index n v \<le> bucket_index n w"
proof -
  have a: "0 \<le> of_int n * v" "0 \<le> of_int n * w" using assms by simp_all
  have "of_int n * v \<le> of_int n * w" using assms by (simp add: mult_left_mono)
  then have "\<lfloor>of_int n * v\<rfloor> \<le> \<lfloor>of_int n * w\<rfloor>" by (rule floor_mono)
  with a show ?thesis by (simp add: bucket_index_def py_int_def min_le_iff_disj)
qed

lemma fisort_set: "set (fisort xs) = set xs"
  by (metis fisort_mset set_mset_mset)

lemma bucket_sort_sorts:
  assumes "\<forall>v\<in>set arr. 0 \<le> v"
  shows "\<exists>ys. bucket_sort arr = Some ys \<and> sorted ys \<and> mset ys = mset arr"
proof (cases "arr = []")
  case True
  then show ?thesis by (simp add: bucket_sort_def)
next
  case False
  let ?n = "int (length arr)"
  let ?g = "\<lambda>b. fisort (filter (\<lambda>v. bslot ?n v = b) arr)"
  from False have n: "0 < ?n" by simp
  have nn: "\<forall>v\<in>set arr. 0 \<le> bucket_index ?n v"
    using assms bucket_index_nonneg[OF n] by blast
  then have lo: "\<forall>v\<in>set arr. - ?n \<le> bucket_index ?n v" by fastforce
  have sl: "bslot ?n v = nat (bucket_index ?n v)" if "v \<in> set arr" for v
  proof -
    from nn that have "0 \<le> bucket_index ?n v" by blast
    then show ?thesis by (simp add: bslot_def Let_def)
  qed
  have cross: "x \<le> y" if "b < c" "x \<in> set (?g b)" "y \<in> set (?g c)" for b c x y
  proof (rule ccontr)
    assume "\<not> x \<le> y"
    then have yx: "y \<le> x" by simp
    from that have x: "x \<in> set arr" "bslot ?n x = b" and y: "y \<in> set arr" "bslot ?n y = c"
      by (auto simp: fisort_set)
    from y(1) assms have "0 \<le> y" by blast
    from bucket_index_mono[OF n this yx] have "bucket_index ?n y \<le> bucket_index ?n x" .
    then have "bslot ?n y \<le> bslot ?n x" using sl[OF x(1)] sl[OF y(1)] by simp
    with x y that(1) show False by simp
  qed
  have "sorted (concat (map ?g [0..<length arr]))"
    by (intro sorted_concat_buckets) (auto simp: fisort_sorted intro: cross)
  with bucket_sort_spec[OF lo] show ?thesis by blast
qed

section \<open>Empty and single-element inputs\<close>


lemma quickSort_short:
  "quickSort ([]::'a::linorder list) 0 (-1) = Some []" "quickSort [x::'a::linorder] 0 0 = Some [x]"
  by (subst quickSort.simps, simp)+

lemma heapSort_short:
  "heapSort ([]::'a::linorder list) = Some []" "heapSort [x::'a::linorder] = Some [x]"
  by (simp_all add: heapSort_def heap_build.simps heap_extract.simps)

lemma mergeSort_short:
  "mergeSort le [] 0 (-1) = Some []" "mergeSort le [x] 0 0 = Some [x]"
  by (subst mergeSort.simps, simp)+

lemma bucket_index_one: "- 1 \<le> bucket_index 1 v \<longleftrightarrow> - 2 < v"
proof (cases "v < 0")
  case True
  then have "bucket_index 1 v = \<lceil>v\<rceil>" by (simp add: bucket_index_def py_int_def min_def)
  moreover have "- 1 \<le> \<lceil>v\<rceil> \<longleftrightarrow> - 2 < v" by (simp add: le_ceiling_iff)
  ultimately show ?thesis by simp
next
  case False
  then have "0 \<le> \<lfloor>v\<rfloor>" by simp
  then have "bucket_index 1 v = 0" using False by (simp add: bucket_index_def py_int_def)
  with False show ?thesis by simp
qed

lemma bucket_sort_single: "bucket_sort [v] = (if - 2 < v then Some [v] else None)"
proof (cases "- 2 < v")
  case True
  then have "\<forall>w\<in>set [v]. - int (length [v]) \<le> bucket_index (int (length [v])) w"
    using bucket_index_one[of v] by simp
  from bucket_sort_spec[OF this] obtain ys where
    ys: "bucket_sort [v] = Some ys" "mset ys = mset [v]" by blast
  then have "ys = [v]" by (metis mset_single_iff_right mset.simps(1) mset.simps(2))
  with ys True show ?thesis by simp
next
  case False
  then have "\<exists>w\<in>set [v]. bucket_index (int (length [v])) w < - int (length [v])"
    using bucket_index_one[of v] by simp
  then have "bucket_sort [v] = None" using bucket_sort_None_iff[of "[v]"] by blast
  with False show ?thesis by simp
qed

lemma qs_record_events_single:
  "qs_record_events [x::'a::linorder] = Some [QSorted_idx [x] 0 0 0 {0}, QDone [x] {0}]"
  by (simp add: qs_record_events_def qs.simps Let_def qs_push_def)

lemma hs_record_events_single:
  "hs_record_events [x::'a::linorder]
   = Some [HPhase [x] ''build'', HHeap_ready [x], HPhase [x] ''extract'', HDone [x]]"
  by (simp add: hs_record_events_def hs_build.simps hs_extract.simps Let_def hs_push_def)

lemma bs_record_events_single:
  "bs_record_events [v]
   = (if - 2 < v
      then Some ([BScatter 0 v (bucket_index 1 v), BBucket_done 0, BGather_start,
                  BGather 0 0 0 0, BDone], [[0]])
      else None)"
proof (cases "- 2 < v")
  case True
  then have lo: "- 1 \<le> bucket_index 1 v" using bucket_index_one[of v] by simp
  have hi: "bucket_index 1 v \<le> 0" using bucket_index_le[of 1 v] by simp
  from lo hi have "bucket_index 1 v = 0 \<or> bucket_index 1 v = - 1" by linarith
  then have g: "py_get [[]::int list] (bucket_index 1 v) = Some []"
    and s: "py_set [[]::int list] (bucket_index 1 v) [0] = Some [[0]]"
    by (auto simp: py_get_def py_set_def py_index_def)
  show ?thesis using True g s
    by (simp add: bs_record_events_def Let_def bs_sort_bucket_def)
next
  case False
  then have "bucket_index 1 v < - 1" using bucket_index_one[of v] by simp
  then have "py_get [[]::int list] (bucket_index 1 v) = None"
    by (simp add: py_get_def py_index_def)
  with False show ?thesis by (simp add: bs_record_events_def Let_def)
qed

section \<open>Correctness of heapSort\<close>


text \<open>The heap order on the first \<open>n\<close> positions, for the proofs.\<close>

definition dominates :: "'a::linorder list \<Rightarrow> int \<Rightarrow> int \<Rightarrow> bool" where
  "dominates arr n j \<longleftrightarrow>
     (2 * j + 1 < n \<longrightarrow> arr ! nat (2 * j + 1) \<le> arr ! nat j) \<and>
     (2 * j + 2 < n \<longrightarrow> arr ! nat (2 * j + 2) \<le> arr ! nat j)"

definition heap_except :: "'a::linorder list \<Rightarrow> int \<Rightarrow> int \<Rightarrow> int \<Rightarrow> bool" where
  "heap_except arr lo n i \<longleftrightarrow>
     (\<forall>j. lo \<le> j \<and> j < n \<and> j \<noteq> i \<longrightarrow> dominates arr n j) \<and>
     (\<forall>j. lo \<le> j \<and> j < n \<and> (i = 2 * j + 1 \<or> i = 2 * j + 2) \<longrightarrow>
        (2 * i + 1 < n \<longrightarrow> arr ! nat (2 * i + 1) \<le> arr ! nat j) \<and>
        (2 * i + 2 < n \<longrightarrow> arr ! nat (2 * i + 2) \<le> arr ! nat j))"

definition heap_from :: "'a::linorder list \<Rightarrow> int \<Rightarrow> int \<Rightarrow> bool" where
  "heap_from arr lo n \<longleftrightarrow> (\<forall>j. lo \<le> j \<and> j < n \<longrightarrow> dominates arr n j)"

lemma swap_at:
  assumes "0 \<le> i" "i < int (length xs)" "0 \<le> c" "c < int (length xs)" "0 \<le> k"
  shows "(xs[nat i := xs ! nat c, nat c := xs ! nat i]) ! nat k
         = (if k = c then xs ! nat i else if k = i then xs ! nat c else xs ! nat k)"
  using assms by (auto simp: nth_list_update)

lemma heapify_unfold:
  assumes "0 \<le> i" "n \<le> int (length arr)"
  shows "heapify arr n i =
    (let l = 2 * i + 1; r = 2 * i + 2;
         largest1 = (if l < n \<and> arr ! nat l > arr ! nat i then l else i);
         largest = (if r < n \<and> arr ! nat r > arr ! nat largest1 then r else largest1)
     in if largest \<noteq> i
        then heapify (arr[nat i := arr ! nat largest, nat largest := arr ! nat i]) n largest
        else Some arr)"
proof -
  have a: "2 * i + 1 < n \<Longrightarrow> py_get arr (2 * i + 1) = Some (arr ! nat (2 * i + 1))"
    and b: "2 * i + 1 < n \<Longrightarrow> py_get arr i = Some (arr ! nat i)"
    and c: "2 * i + 2 < n \<Longrightarrow> py_get arr (2 * i + 2) = Some (arr ! nat (2 * i + 2))"
    and d: "2 * i + 2 < n \<Longrightarrow> py_get arr i = Some (arr ! nat i)"
    and e: "2 * i + 2 < n \<Longrightarrow> py_get arr (2 * i + 1) = Some (arr ! nat (2 * i + 1))"
    using assms by simp_all
  have sw1: "2 * i + 1 < n \<Longrightarrow> swap arr i (2 * i + 1)
       = Some (arr[nat i := arr ! nat (2 * i + 1), nat (2 * i + 1) := arr ! nat i])"
    using assms by (intro swap_in) auto
  have sw2: "2 * i + 2 < n \<Longrightarrow> swap arr i (2 * i + 2)
       = Some (arr[nat i := arr ! nat (2 * i + 2), nat (2 * i + 2) := arr ! nat i])"
    using assms by (intro swap_in) auto
  show ?thesis
    by (subst heapify.simps) (auto simp: Let_def a b c d e sw1 sw2)
qed


lemma heapify_step:
  assumes "0 \<le> i" "n \<le> int (length arr)"
    and "l = 2 * i + 1" "r = 2 * i + 2"
    and "largest1 = (if l < n \<and> arr ! nat l > arr ! nat i then l else i)"
    and "c = (if r < n \<and> arr ! nat r > arr ! nat largest1 then r else largest1)"
  shows "heapify arr n i
         = (if c \<noteq> i then heapify (arr[nat i := arr ! nat c, nat c := arr ! nat i]) n c
            else Some arr)"
  unfolding heapify_unfold[OF assms(1,2)] Let_def
  unfolding assms(6) assms(5) assms(4) assms(3) ..

lemma heapify_spec:
  "0 \<le> lo \<Longrightarrow> lo \<le> i \<Longrightarrow> i < n \<Longrightarrow> n \<le> int (length arr) \<Longrightarrow> heap_except arr lo n i \<Longrightarrow>
   \<exists>arr'. heapify arr n i = Some arr' \<and> outside_eq arr arr' i (n - 1) \<and> heap_from arr' lo n"
proof (induction "nat (n - i)" arbitrary: arr i rule: less_induct)
  case less
  note pr = less.prems
  define l where "l = 2 * i + 1"
  define r where "r = 2 * i + 2"
  define largest1 where "largest1 = (if l < n \<and> arr ! nat l > arr ! nat i then l else i)"
  define c where "c = (if r < n \<and> arr ! nat r > arr ! nat largest1 then r else largest1)"
  let ?arr1 = "arr[nat i := arr ! nat c, nat c := arr ! nat i]"
  have ir: "0 \<le> i" "i < int (length arr)" using pr by auto
  have unf: "heapify arr n i = (if c \<noteq> i then heapify ?arr1 n c else Some arr)"
    by (rule heapify_step[OF ir(1) pr(4) l_def r_def largest1_def c_def])
  have cases_c: "c = i \<or> (c = l \<and> l < n) \<or> (c = r \<and> r < n)"
    by (auto simp: c_def largest1_def)
  have maxl: "l < n \<Longrightarrow> arr ! nat l \<le> arr ! nat c"
    and maxr: "r < n \<Longrightarrow> arr ! nat r \<le> arr ! nat c"
    and maxi: "arr ! nat i \<le> arr ! nat c"
    by (auto simp: c_def largest1_def)
  have ha: "\<And>j. lo \<le> j \<Longrightarrow> j < n \<Longrightarrow> j \<noteq> i \<Longrightarrow> dominates arr n j"
    using pr(5) by (simp add: heap_except_def)
  have hb: "\<And>j. lo \<le> j \<Longrightarrow> j < n \<Longrightarrow> i = 2 * j + 1 \<or> i = 2 * j + 2 \<Longrightarrow>
        (l < n \<longrightarrow> arr ! nat l \<le> arr ! nat j) \<and> (r < n \<longrightarrow> arr ! nat r \<le> arr ! nat j)"
    using pr(5) unfolding heap_except_def l_def r_def by blast
  show ?case
  proof (cases "c = i")
    case True
    have "dominates arr n i"
      using maxl maxr True by (simp add: dominates_def l_def r_def)
    with ha have "heap_from arr lo n" unfolding heap_from_def by blast
    with unf True show ?thesis by (simp add: outside_eq_refl)
  next
    case False
    with cases_c ir have cb: "i < c" "c < n" "c = l \<or> c = r" by (auto simp: l_def r_def)
    have cr: "0 \<le> c" "c < int (length arr)" using cb ir pr(4) by auto
    have at1: "\<And>k. 0 \<le> k \<Longrightarrow> ?arr1 ! nat k
        = (if k = c then arr ! nat i else if k = i then arr ! nat c else arr ! nat k)"
      using swap_at[OF ir cr] by simp
    have part_a: "dominates ?arr1 n j" if j: "lo \<le> j" "j < n" "j \<noteq> c" for j
    proof (cases "j = i")
      case True
      have "l \<noteq> i" "r \<noteq> i" "0 \<le> l" "0 \<le> r" using ir by (auto simp: l_def r_def)
      then show ?thesis
        unfolding dominates_def True
        using at1[of l] at1[of r] at1[of i] ir maxl maxr maxi
        by (auto simp: l_def[symmetric] r_def[symmetric])
    next
      case ne: False
      have j0: "0 \<le> j" using j pr(1) by simp
      have dj: "dominates arr n j" using ha j ne by blast
      have k1: "2 * j + 1 \<noteq> c" "2 * j + 2 \<noteq> c" using cb(3) ne by (auto simp: l_def r_def)
      have g1: "arr ! nat c \<le> arr ! nat j" if "i = 2 * j + 1 \<or> i = 2 * j + 2"
        using hb[OF j(1,2) that] cb by auto
      show ?thesis
        unfolding dominates_def
        using at1[of "2 * j + 1"] at1[of "2 * j + 2"] at1[of j] j0 k1 ne j(3) dj g1
        by (auto simp: dominates_def)
    qed
    have part_b: "(2 * c + 1 < n \<longrightarrow> ?arr1 ! nat (2 * c + 1) \<le> ?arr1 ! nat j) \<and>
        (2 * c + 2 < n \<longrightarrow> ?arr1 ! nat (2 * c + 2) \<le> ?arr1 ! nat j)"
      if j: "lo \<le> j" "j < n" "c = 2 * j + 1 \<or> c = 2 * j + 2" for j
    proof -
      from j(3) cb(3) have ji: "j = i" by (auto simp: l_def r_def)
      have dc: "dominates arr n c" using ha[of c] cb pr(2) by simp
      have "2 * c + 1 \<noteq> c" "2 * c + 1 \<noteq> i" "2 * c + 2 \<noteq> c" "2 * c + 2 \<noteq> i"
        "0 \<le> 2 * c + 1" "0 \<le> 2 * c + 2" using cb ir by auto
      then show ?thesis
        using at1[of "2 * c + 1"] at1[of "2 * c + 2"] at1[of i] ir dc cb(1) unfolding ji
        by (auto simp: dominates_def)
    qed
    have he: "heap_except ?arr1 lo n c"
      unfolding heap_except_def using part_a part_b by blast
    have "\<exists>arr'. heapify ?arr1 n c = Some arr' \<and> outside_eq ?arr1 arr' c (n - 1)
            \<and> heap_from arr' lo n"
      using cb pr he by (intro less.hyps) auto
    then obtain arr' where h: "heapify ?arr1 n c = Some arr'"
      "outside_eq ?arr1 arr' c (n - 1)" "heap_from arr' lo n" by blast
    have "outside_eq arr ?arr1 i (n - 1)"
      using ir cb pr(4) by (intro outside_eq_swap) auto
    from outside_eq_trans[OF this outside_eq_mono[OF h(2), of i "n - 1"]] cb(1)
    have "outside_eq arr arr' i (n - 1)" by simp
    with unf False h show ?thesis by simp
  qed
qed


lemma heap_build_spec:
  "- 1 \<le> i \<Longrightarrow> i < n \<Longrightarrow> n \<le> int (length arr) \<Longrightarrow> heap_from arr (i + 1) n \<Longrightarrow>
   \<exists>arr'. heap_build arr n i = Some arr' \<and> outside_eq arr arr' 0 (n - 1) \<and> heap_from arr' 0 n"
proof (induction "nat (i + 1)" arbitrary: arr i rule: less_induct)
  case less
  note pr = less.prems
  show ?case
  proof (cases "i > - 1")
    case False
    with pr(1) have "i = - 1" by simp
    with pr(4) show ?thesis by (subst heap_build.simps) (simp add: outside_eq_refl)
  next
    case True
    then have i0: "0 \<le> i" by simp
    have he: "heap_except arr i n i"
      unfolding heap_except_def using pr(4) i0 by (auto simp: heap_from_def)
    from heapify_spec[OF i0 order_refl pr(2) pr(3) he] obtain arr1 where
      h: "heapify arr n i = Some arr1" "outside_eq arr arr1 i (n - 1)" "heap_from arr1 i n"
      by blast
    from h(2) have len1: "length arr1 = length arr" by (simp add: outside_eq_def)
    have "\<exists>arr'. heap_build arr1 n (i - 1) = Some arr' \<and> outside_eq arr1 arr' 0 (n - 1)
            \<and> heap_from arr' 0 n"
      using i0 pr len1 h(3) by (intro less.hyps) auto
    then obtain arr' where b: "heap_build arr1 n (i - 1) = Some arr'"
      "outside_eq arr1 arr' 0 (n - 1)" "heap_from arr' 0 n" by blast
    from outside_eq_trans[OF outside_eq_mono[OF h(2), of 0 "n - 1"] b(2)] i0
    have "outside_eq arr arr' 0 (n - 1)" by simp
    with True h(1) b show ?thesis by (subst heap_build.simps) simp
  qed
qed

lemma root_max:
  "heap_from arr 0 m \<Longrightarrow> 0 \<le> k \<Longrightarrow> k < m \<Longrightarrow> arr ! nat k \<le> arr ! 0"
proof (induction "nat k" arbitrary: k rule: less_induct)
  case less
  show ?case
  proof (cases "k = 0")
    case True
    then show ?thesis by simp
  next
    case False
    define p where "p = (k - 1) div 2"
    have p: "0 \<le> p" "p < k" "k = 2 * p + 1 \<or> k = 2 * p + 2"
      using False less.prems(2) by (auto simp: p_def)
    have "dominates arr m p" using less.prems p by (simp add: heap_from_def)
    then have "arr ! nat k \<le> arr ! nat p" using p(3) less.prems(3) by (auto simp: dominates_def)
    moreover have "arr ! nat p \<le> arr ! 0"
      using p less.prems by (intro less.hyps) auto
    ultimately show ?thesis by simp
  qed
qed

lemma heap_extract_spec:
  "- 1 \<le> i \<Longrightarrow> i < int (length arr) \<Longrightarrow> heap_from arr 0 (i + 1) \<Longrightarrow>
   sorted_between arr (i + 1) (int (length arr) - 1) \<Longrightarrow>
   (\<forall>a b. 0 \<le> a \<and> a \<le> i \<and> i < b \<and> b < int (length arr) \<longrightarrow> arr ! nat a \<le> arr ! nat b) \<Longrightarrow>
   \<exists>arr'. heap_extract arr i = Some arr' \<and> mset arr' = mset arr \<and> length arr' = length arr
         \<and> sorted_between arr' 0 (int (length arr) - 1)"
proof (induction "nat (i + 1)" arbitrary: arr i rule: less_induct)
  case less
  note pr = less.prems
  let ?len = "int (length arr)"
  show ?case
  proof (cases "i > 0")
    case False
    have "sorted_between arr 0 (?len - 1)"
      unfolding sorted_between_def
    proof (intro allI impI)
      fix a b assume ab: "0 \<le> a \<and> a \<le> b \<and> b \<le> ?len - 1"
      consider "a = b" | "i + 1 \<le> a" "a < b" | "a \<le> i" "i < b" using ab False by linarith
      then show "arr ! nat a \<le> arr ! nat b"
      proof cases
        case 1
        then show ?thesis by simp
      next
        case 2
        then show ?thesis using pr(4) ab by (simp add: sorted_between_def)
      next
        case 3
        then show ?thesis using pr(5) ab by simp
      qed
    qed
    with False show ?thesis by (subst heap_extract.simps) simp
  next
    case True
    let ?arr1 = "arr[nat 0 := arr ! nat i, nat i := arr ! nat 0]"
    have zr: "(0::int) \<le> 0" "0 < ?len" and ir: "0 \<le> i" "i < ?len" using True pr by auto
    have sw: "swap arr 0 i = Some ?arr1" using swap_in[OF zr(1) zr(2) ir] .
    have at1: "\<And>k. 0 \<le> k \<Longrightarrow> ?arr1 ! nat k
        = (if k = i then arr ! nat 0 else if k = 0 then arr ! nat i else arr ! nat k)"
      using swap_at[OF zr(1) zr(2) ir] by simp
    have oe1: "outside_eq arr ?arr1 0 i"
      using ir by (intro outside_eq_swap) auto
    have len1: "length ?arr1 = length arr" by simp
    have part_a: "dominates ?arr1 i j" if j: "0 \<le> j \<and> j < i \<and> j \<noteq> 0" for j
    proof -
      from j have "dominates arr (i + 1) j" using pr(3) by (simp add: heap_from_def)
      then show ?thesis
        using j at1[of j] at1[of "2 * j + 1"] at1[of "2 * j + 2"]
        by (auto simp: dominates_def)
    qed
    have part_b: "False" if "0 \<le> j \<and> j < i \<and> (0 = 2 * j + 1 \<or> 0 = 2 * j + 2)" for j :: int
      using that by presburger
    have he: "heap_except ?arr1 0 i 0"
      unfolding heap_except_def using part_a part_b by blast
    have il: "i \<le> int (length ?arr1)" using ir by simp
    from heapify_spec[OF order_refl order_refl True il he] obtain arr2 where
      h: "heapify ?arr1 i 0 = Some arr2" "outside_eq ?arr1 arr2 0 (i - 1)" "heap_from arr2 0 i"
      by blast
    from h(2) have len2: "length arr2 = length arr" by (simp add: outside_eq_def)
    have keep: "arr2 ! nat k = ?arr1 ! nat k" if "i \<le> k" "k < ?len" for k
      using h(2) that ir by (auto simp: outside_eq_def)
    have top: "arr ! nat k \<le> arr ! nat 0" if "0 \<le> k" "k \<le> i" for k
      using root_max[OF pr(3), of k] that by simp
    have low: "\<exists>k'. 0 \<le> k' \<and> k' \<le> i \<and> arr2 ! nat a = arr ! nat k'" if "0 \<le> a" "a \<le> i - 1" for a
    proof -
      from outside_eq_inside[OF h(2), of a] that ir len1
      obtain k' where k': "0 \<le> k'" "k' \<le> i - 1" "arr2 ! nat a = ?arr1 ! nat k'" by auto
      show ?thesis
      proof (cases "k' = 0")
        case True
        with k' at1[of 0] ir True show ?thesis by (intro exI[of _ i]) auto
      next
        case False
        with k' at1[of k'] show ?thesis by (intro exI[of _ k']) auto
      qed
    qed
    have s2: "sorted_between arr2 (i - 1 + 1) (int (length arr2) - 1)"
      unfolding sorted_between_def
    proof (intro allI impI)
      fix a b assume ab: "i - 1 + 1 \<le> a \<and> a \<le> b \<and> b \<le> int (length arr2) - 1"
      then have eqs: "arr2 ! nat a = ?arr1 ! nat a" "arr2 ! nat b = ?arr1 ! nat b"
        using keep[of a] keep[of b] len2 by auto
      consider "a = b" | "a = i" "i < b" | "i < a" "a < b" using ab by linarith
      then show "arr2 ! nat a \<le> arr2 ! nat b"
      proof cases
        case 1
        then show ?thesis by simp
      next
        case 2
        then have "arr ! nat 0 \<le> arr ! nat b"
          using pr(5)[rule_format, of 0 b] ab ir len2 by simp
        then show ?thesis using eqs at1[of a] at1[of b] 2 ir by simp
      next
        case 3
        then have "arr ! nat a \<le> arr ! nat b" using pr(4) ab len2 by (simp add: sorted_between_def)
        then show ?thesis using eqs at1[of a] at1[of b] 3 ir by simp
      qed
    qed
    have c2: "\<forall>a b. 0 \<le> a \<and> a \<le> i - 1 \<and> i - 1 < b \<and> b < int (length arr2)
                \<longrightarrow> arr2 ! nat a \<le> arr2 ! nat b"
    proof (intro allI impI)
      fix a b assume ab: "0 \<le> a \<and> a \<le> i - 1 \<and> i - 1 < b \<and> b < int (length arr2)"
      from low[of a] ab obtain k' where k': "0 \<le> k'" "k' \<le> i" "arr2 ! nat a = arr ! nat k'"
        by auto
      have eb: "arr2 ! nat b = ?arr1 ! nat b" using keep[of b] ab len2 by simp
      show "arr2 ! nat a \<le> arr2 ! nat b"
      proof (cases "b = i")
        case True
        then show ?thesis using eb at1[of b] ir k' top[of k'] by simp
      next
        case False
        with ab have "i < b" by simp
        then have "arr ! nat k' \<le> arr ! nat b"
          using pr(5)[rule_format, of k' b] k' ab len2 by simp
        then show ?thesis using eb at1[of b] False \<open>i < b\<close> ir k' by simp
      qed
    qed
    have hf: "heap_from arr2 0 (i - 1 + 1)" using h(3) by simp
    have "\<exists>arr'. heap_extract arr2 (i - 1) = Some arr' \<and> mset arr' = mset arr2
          \<and> length arr' = length arr2 \<and> sorted_between arr' 0 (int (length arr2) - 1)"
      using True ir len2 by (intro less.hyps[OF _ _ _ hf s2 c2]) auto
    then obtain arr' where e: "heap_extract arr2 (i - 1) = Some arr'" "mset arr' = mset arr2"
      "length arr' = length arr2" "sorted_between arr' 0 (int (length arr2) - 1)" by blast
    have "mset arr2 = mset arr" using h(2) oe1 by (simp add: outside_eq_def)
    with True sw h(1) e len2 show ?thesis by (subst heap_extract.simps) simp
  qed
qed

lemma heapSort_sorts:
  "\<exists>ys. heapSort xs = Some ys \<and> sorted ys \<and> mset ys = mset xs"
proof -
  let ?n = "int (length xs)"
  have hf0: "heap_from xs (?n div 2 - 1 + 1) ?n"
    by (auto simp: heap_from_def dominates_def)
  have "\<exists>arr'. heap_build xs ?n (?n div 2 - 1) = Some arr' \<and> outside_eq xs arr' 0 (?n - 1)
          \<and> heap_from arr' 0 ?n"
    using hf0 by (intro heap_build_spec) auto
  then obtain arr1 where b: "heap_build xs ?n (?n div 2 - 1) = Some arr1"
    "outside_eq xs arr1 0 (?n - 1)" "heap_from arr1 0 ?n" by blast
  from b(2) have len1: "length arr1 = length xs" "mset arr1 = mset xs"
    by (simp_all add: outside_eq_def)
  have "\<exists>arr'. heap_extract arr1 (?n - 1) = Some arr' \<and> mset arr' = mset arr1
          \<and> length arr' = length arr1 \<and> sorted_between arr' 0 (int (length arr1) - 1)"
    using b(3) len1 by (intro heap_extract_spec) (auto simp: sorted_between_def)
  then obtain ys where e: "heap_extract arr1 (?n - 1) = Some ys" "mset ys = mset arr1"
    "length ys = length arr1" "sorted_between ys 0 (int (length arr1) - 1)" by blast
  have "sorted ys" using e(3,4) sorted_between_full[of ys] by simp
  with b(1) e len1 show ?thesis by (simp add: heapSort_def Let_def)
qed

text \<open>
  C1.  On every finite sequence of values of a linear order, \<open>quickSort\<close> over the full
  range \<open>[0, n - 1]\<close>, \<open>heapSort\<close> and \<open>mergeSort\<close> over \<open>[0, n - 1]\<close> complete and leave a
  non-decreasing permutation of the input; \<open>bucket_sort\<close> does so on every sequence
  whose values all lie in \<open>[0, 1)\<close>.
\<close>

theorem sort_engines_sort:
  fixes xs :: "'a::linorder list" and rs :: "rat list"
  shows "(\<exists>ys. quickSort xs 0 (int (length xs) - 1) = Some ys \<and> sorted ys \<and> mset ys = mset xs)
       \<and> (\<exists>ys. heapSort xs = Some ys \<and> sorted ys \<and> mset ys = mset xs)
       \<and> (\<exists>ys. mergeSort (\<le>) xs 0 (int (length xs) - 1) = Some ys \<and> sorted ys
                 \<and> mset ys = mset xs)
       \<and> ((\<forall>v\<in>set rs. 0 \<le> v \<and> v < 1) \<longrightarrow>
            (\<exists>ys. bucket_sort rs = Some ys \<and> sorted ys \<and> mset ys = mset rs))"
proof (intro conjI impI)
  show "\<exists>ys. quickSort xs 0 (int (length xs) - 1) = Some ys \<and> sorted ys \<and> mset ys = mset xs"
    by (rule quickSort_sorts)
next
  show "\<exists>ys. heapSort xs = Some ys \<and> sorted ys \<and> mset ys = mset xs"
    by (rule heapSort_sorts)
next
  from mergeSort_key_sorts[of id xs] obtain ys where
    "mergeSort (\<lambda>a b. id a \<le> id b) xs 0 (int (length xs) - 1) = Some ys"
    "sorted_stable id xs ys" by blast
  then have "mergeSort (\<le>) xs 0 (int (length xs) - 1) = Some ys \<and> sorted ys \<and> mset ys = mset xs"
    by (simp add: sorted_stable_def)
  then show "\<exists>ys. mergeSort (\<le>) xs 0 (int (length xs) - 1) = Some ys \<and> sorted ys
                 \<and> mset ys = mset xs" ..
next
  assume "\<forall>v\<in>set rs. 0 \<le> v \<and> v < 1"
  then have "\<forall>v\<in>set rs. 0 \<le> v" by blast
  then show "\<exists>ys. bucket_sort rs = Some ys \<and> sorted ys \<and> mset ys = mset rs"
    by (rule bucket_sort_sorts)
qed

theorem sort_engines_sort_witness:
  "list_all (\<lambda>v. 0 \<le> v \<and> v < 1)
     [78/100, 17/100, 39/100, 26/100, 72/100, 94/100, 21/100, 12/100, 23/100, 68/100 :: rat]
   \<and> (\<exists>ys. bucket_sort
             [78/100, 17/100, 39/100, 26/100, 72/100, 94/100, 21/100, 12/100, 23/100, 68/100]
           = Some ys \<and> sorted ys
         \<and> ys = [12/100, 17/100, 21/100, 23/100, 26/100, 39/100, 68/100, 72/100, 78/100, 94/100])
   \<and> (\<exists>ys. heapSort [5, 3, 8, 4, 2 :: int] = Some ys \<and> sorted ys \<and> ys = [2, 3, 4, 5, 8])"
proof -
  let ?rs = "[78/100, 17/100, 39/100, 26/100, 72/100, 94/100, 21/100, 12/100, 23/100, 68/100 :: rat]"
  have h: "\<forall>v\<in>set ?rs. 0 \<le> v \<and> v < 1" by simp
  have l: "list_all (\<lambda>v. 0 \<le> v \<and> v < 1) ?rs" by simp
  have e: "bucket_sort ?rs
           = Some [12/100, 17/100, 21/100, 23/100, 26/100, 39/100, 68/100, 72/100, 78/100, 94/100]"
    by code_simp
  have e2: "heapSort [5, 3, 8, 4, 2 :: int] = Some [2, 3, 4, 5, 8]" by code_simp
  from sort_engines_sort[of "[5, 3, 8, 4, 2 :: int]" ?rs] h obtain ys zs where
    "bucket_sort ?rs = Some ys" "sorted ys" "heapSort [5, 3, 8, 4, 2 :: int] = Some zs" "sorted zs"
    by blast
  with e e2 l show ?thesis by simp
qed

text \<open>
  C3.  Mergesort is stable.  The elements are pairs \<open>(value, original_index)\<close> compared
  by value only, so \<open>le a b\<close> is \<open>fst a \<le> fst b\<close>.  On every input, \<open>mergeSort\<close> over the
  full range returns a permutation of the input that is non-decreasing in the values and
  in which, for every value \<open>v\<close>, the pairs with value \<open>v\<close> stand in their input order.
  On a tie, \<open>merge\<close> takes the element of the left run first.
\<close>

theorem mergeSort_stable:
  fixes xs :: "('v::linorder \<times> 'i) list"
  shows "(\<exists>ys. mergeSort (\<lambda>a b. fst a \<le> fst b) xs 0 (int (length xs) - 1) = Some ys
            \<and> mset ys = mset xs \<and> sorted (map fst ys)
            \<and> (\<forall>v. filter (\<lambda>p. fst p = v) ys = filter (\<lambda>p. fst p = v) xs))
       \<and> (\<forall>x y :: 'v \<times> 'i. fst x = fst y \<longrightarrow>
            merge (\<lambda>a b. fst a \<le> fst b) [x, y] 0 0 1 = Some [x, y])"
proof
  from mergeSort_key_sorts[of fst xs] obtain ys where
    "mergeSort (\<lambda>a b. fst a \<le> fst b) xs 0 (int (length xs) - 1) = Some ys"
    "sorted_stable fst xs ys" by blast
  then show "\<exists>ys. mergeSort (\<lambda>a b. fst a \<le> fst b) xs 0 (int (length xs) - 1) = Some ys
            \<and> mset ys = mset xs \<and> sorted (map fst ys)
            \<and> (\<forall>v. filter (\<lambda>p. fst p = v) ys = filter (\<lambda>p. fst p = v) xs)"
    by (auto simp: sorted_stable_def)
next
  show "\<forall>x y :: 'v \<times> 'i. fst x = fst y \<longrightarrow>
            merge (\<lambda>a b. fst a \<le> fst b) [x, y] 0 0 1 = Some [x, y]"
  proof (intro allI impI)
    fix x y :: "'v \<times> 'i" assume t: "fst x = fst y"
    have "merge (\<lambda>a b. fst a \<le> fst b) ([] @ [x] @ [y] @ []) 0 0 1
          = Some ([] @ fmerge (\<lambda>a b. fst a \<le> fst b) [x] [y] @ [])"
      by (rule merge_spec) simp_all
    with t show "merge (\<lambda>a b. fst a \<le> fst b) [x, y] 0 0 1 = Some [x, y]" by simp
  qed
qed

theorem mergeSort_stable_witness:
  "mergeSort (\<lambda>a b. fst a \<le> fst b) [(2, 0), (1, 1), (2, 2), (1, 3) :: int \<times> nat] 0 3
     = Some [(1, 1), (1, 3), (2, 0), (2, 2)]
   \<and> filter (\<lambda>p. fst p = 2) [(1, 1), (1, 3), (2, 0), (2, 2) :: int \<times> nat]
     = filter (\<lambda>p. fst p = 2) [(2, 0), (1, 1), (2, 2), (1, 3)]
   \<and> fst ((2, 0) :: int \<times> nat) = fst ((2, 2) :: int \<times> nat)
   \<and> merge (\<lambda>a b. fst a \<le> fst b) [(2, 0), (2, 2) :: int \<times> nat] 0 0 1 = Some [(2, 0), (2, 2)]"
proof -
  let ?xs = "[(2, 0), (1, 1), (2, 2), (1, 3) :: int \<times> nat]"
  have e: "mergeSort (\<lambda>a b. fst a \<le> fst b) ?xs 0 3 = Some [(1, 1), (1, 3), (2, 0), (2, 2)]"
    by code_simp
  from mergeSort_stable[of ?xs] e
  have f: "filter (\<lambda>p. fst p = 2) [(1, 1), (1, 3), (2, 0), (2, 2) :: int \<times> nat]
           = filter (\<lambda>p. fst p = 2) ?xs"
    by simp
  have t: "fst ((2, 0) :: int \<times> nat) = fst ((2, 2) :: int \<times> nat)" by simp
  from mergeSort_stable[of ?xs] t
  have m: "merge (\<lambda>a b. fst a \<le> fst b) [(2, 0), (2, 2) :: int \<times> nat] 0 0 1 = Some [(2, 0), (2, 2)]"
    by blast
  from e f t m show ?thesis by blast
qed




text \<open>
  C5.  The empty sequence and a single-element sequence are no-ops for all four engines:
  the call raises no error and the sequence after the call is the sequence before it,
  element for element, so no element is changed.  \<open>quickSort\<close> and \<open>mergeSort\<close> are
  called over the full range (\<open>[0, -1]\<close> for the empty sequence, \<open>[0, 0]\<close> for one element),
  and \<open>bucket_sort\<close> on a value of its domain \<open>[0, 1)\<close>.  For one element the bucket count
  is \<open>1\<close>, the product \<open>1 * v\<close> is \<open>v\<close> itself, and \<open>int(v) = 0\<close> on the domain, so the only
  bucket receives the element.
\<close>

theorem sort_short_sequences:
  fixes x :: "'a::linorder" and y :: 'b and le :: "'b \<Rightarrow> 'b \<Rightarrow> bool" and v :: rat
  assumes "0 \<le> v" and "v < 1"
  shows "quickSort ([]::'a list) 0 (-1) = Some [] \<and> quickSort [x] 0 0 = Some [x]
       \<and> heapSort ([]::'a list) = Some [] \<and> heapSort [x] = Some [x]
       \<and> mergeSort le [] 0 (-1) = Some [] \<and> mergeSort le [y] 0 0 = Some [y]
       \<and> bucket_sort [] = Some [] \<and> bucket_sort [v] = Some [v]"
proof -
  have "bucket_sort [] = Some []" by (simp add: bucket_sort_def)
  moreover have "bucket_sort [v] = Some [v]" using assms by (simp add: bucket_sort_single)
  ultimately show ?thesis
    by (simp add: quickSort_short heapSort_short mergeSort_short)
qed

theorem sort_short_sequences_witness:
  "(0 :: rat) \<le> 1/2 \<and> (1/2 :: rat) < 1
   \<and> quickSort ([]::int list) 0 (-1) = Some [] \<and> quickSort [7 :: int] 0 0 = Some [7]
   \<and> heapSort ([]::int list) = Some [] \<and> heapSort [7 :: int] = Some [7]
   \<and> mergeSort (\<le>) ([]::int list) 0 (-1) = Some [] \<and> mergeSort (\<le>) [7 :: int] 0 0 = Some [7]
   \<and> bucket_sort [] = Some [] \<and> bucket_sort [1/2] = Some [1/2]"
  using sort_short_sequences[where v = "1/2" and x = "7 :: int" and y = "7 :: int"
      and le = "(\<le>)"]
  by simp

text \<open>
  C6.  On a single-element input every step recorder returns a log in which the content
  is unchanged, with no comparison record, and with a record of the element being sorted.
  The quicksort recorder returns the \<^verbatim>\<open>sorted_idx\<close> record of index \<open>0\<close> (a single element
  is already sorted) and \<^verbatim>\<open>done\<close>, both with the snapshot \<open>[x]\<close>.  The heapsort recorder
  returns its markers \<^verbatim>\<open>phase\<close> (build), \<^verbatim>\<open>heap_ready\<close>, \<^verbatim>\<open>phase\<close> (extract) and the closing
  \<^verbatim>\<open>done\<close> record (``Array sorted''), all with the snapshot \<open>[x]\<close>.  The bucket sort
  recorder, on a value of its domain \<open>[0, 1)\<close>, returns \<^verbatim>\<open>scatter\<close> of the element into
  bucket \<open>0\<close>, \<^verbatim>\<open>bucket_done\<close> for that bucket (one element, already sorted),
  \<^verbatim>\<open>gather_start\<close>, the \<^verbatim>\<open>gather\<close> of original index \<open>0\<close> to position \<open>0\<close>, and \<^verbatim>\<open>done\<close>,
  together with the bucket list \<open>[[0]]\<close>; replaying that log on a copy of the input leaves
  it as it is.
\<close>

theorem record_events_single_element:
  fixes x :: "'a::linorder" and v :: rat
  assumes "0 \<le> v" and "v < 1"
  shows "qs_record_events [x] = Some [QSorted_idx [x] 0 0 0 {0}, QDone [x] {0}]
       \<and> hs_record_events [x]
           = Some [HPhase [x] ''build'', HHeap_ready [x], HPhase [x] ''extract'', HDone [x]]
       \<and> bs_record_events [v]
           = Some ([BScatter 0 v 0, BBucket_done 0, BGather_start, BGather 0 0 0 0, BDone],
                   [[0]])
       \<and> map_option snd
           (bs_replay [v] [BScatter 0 v 0, BBucket_done 0, BGather_start, BGather 0 0 0 0, BDone]
              (Map.empty, [v]))
           = Some [v]"
proof -
  from assms have "\<lfloor>v\<rfloor> = 0" by (simp add: floor_unique)
  with assms have b: "bucket_index 1 v = 0" by (simp add: bucket_index_def py_int_def)
  have "bs_record_events [v]
        = Some ([BScatter 0 v 0, BBucket_done 0, BGather_start, BGather 0 0 0 0, BDone], [[0]])"
    using assms b by (simp add: bs_record_events_single)
  moreover have "map_option snd
           (bs_replay [v] [BScatter 0 v 0, BBucket_done 0, BGather_start, BGather 0 0 0 0, BDone]
              (Map.empty, [v]))
           = Some [v]"
    by (simp add: py_get_def py_set_def py_index_def)
  ultimately show ?thesis
    by (simp only: qs_record_events_single hs_record_events_single simp_thms)
qed

theorem record_events_single_element_witness:
  "(0 :: rat) \<le> 1/2 \<and> (1/2 :: rat) < 1
   \<and> qs_record_events [7 :: int] = Some [QSorted_idx [7] 0 0 0 {0}, QDone [7] {0}]
   \<and> hs_record_events [7 :: int]
       = Some [HPhase [7] ''build'', HHeap_ready [7], HPhase [7] ''extract'', HDone [7]]
   \<and> bs_record_events [1/2]
       = Some ([BScatter 0 (1/2) 0, BBucket_done 0, BGather_start, BGather 0 0 0 0, BDone], [[0]])"
  using record_events_single_element[where v = "1/2" and x = "7 :: int"]
  by simp

text \<open>
  C7.  For a sequence of length \<open>n \<ge> 1\<close> whose values all lie in \<open>[0, 1)\<close>, the bucket index
  \<open>min(int(n * v), n - 1)\<close> of every value lies in \<open>[0, n - 1]\<close>, it addresses the bucket
  list without wrapping, and the scatter loop of \<open>bucket_sort\<close> completes without an
  \<open>IndexError\<close>.
\<close>

theorem bucket_index_in_bounds:
  assumes "arr \<noteq> []" and "\<forall>v\<in>set arr. 0 \<le> v \<and> v < 1"
  shows "(\<forall>v\<in>set arr. 0 \<le> bucket_index (int (length arr)) v
              \<and> bucket_index (int (length arr)) v \<le> int (length arr) - 1
              \<and> py_index (replicate (length arr) ([]::rat list)) (bucket_index (int (length arr)) v)
                  = Some (nat (bucket_index (int (length arr)) v)))
       \<and> (\<exists>buckets. scatter (replicate (length arr) []) (int (length arr)) arr = Some buckets)"
proof -
  let ?n = "int (length arr)"
  from assms(1) have n: "0 < ?n" by simp
  have bnd: "\<forall>v\<in>set arr. 0 \<le> bucket_index ?n v \<and> bucket_index ?n v \<le> ?n - 1"
    using bucket_index_bounds[OF n] assms(2) by blast
  have "length (replicate (length arr) ([]::rat list)) = nat ?n" by simp
  from scatter_in_range[OF this bnd] have
    "\<exists>buckets. scatter (replicate (length arr) []) ?n arr = Some buckets" by blast
  moreover have "\<forall>v\<in>set arr. py_index (replicate (length arr) ([]::rat list)) (bucket_index ?n v)
                  = Some (nat (bucket_index ?n v))"
    using bnd by (auto simp: py_index_def)
  ultimately show ?thesis using bnd by blast
qed

theorem bucket_index_in_bounds_witness:
  "[1/2, 1/5, 9/10] \<noteq> ([]::rat list) \<and> list_all (\<lambda>v. 0 \<le> v \<and> v < 1) [1/2, 1/5, 9/10::rat]
   \<and> (\<exists>buckets. scatter (replicate (length [1/2, 1/5, 9/10::rat]) [])
                    (int (length [1/2, 1/5, 9/10::rat])) [1/2, 1/5, 9/10] = Some buckets)"
proof -
  have h1: "[1/2, 1/5, 9/10] \<noteq> ([]::rat list)" by simp
  have h2: "\<forall>v\<in>set [1/2, 1/5, 9/10::rat]. 0 \<le> v \<and> v < 1" by simp
  have h3: "list_all (\<lambda>v. 0 \<le> v \<and> v < 1) [1/2, 1/5, 9/10::rat]" by simp
  from bucket_index_in_bounds[OF h1 h2] h1 h3 show ?thesis by blast
qed

text \<open>
  C9.  \<open>quickSort\<close> on \<open>[5, 3, 8, 4, 2]\<close> over \<open>[0, 4]\<close> produces \<open>[2, 3, 4, 5, 8]\<close>, and the
  first \<^verbatim>\<open>pivot\<close> event of the recorder on that input is the one of the initial range
  \<open>(0, 4)\<close> and records the pivot value \<open>2\<close>, the last element.
\<close>

theorem quicksort_scenario:
  "quickSort [5, 3, 8, 4, 2 :: int] 0 4 = Some [2, 3, 4, 5, 8]
   \<and> (case qs_record_events [5, 3, 8, 4, 2 :: int] of
        None \<Rightarrow> False
      | Some evs \<Rightarrow>
          find is_pivot evs = Some (QPivot [5, 3, 8, 4, 2] 0 4 4)
          \<and> map_option pivot_value (find is_pivot evs) = Some (Some 2))"
  by code_simp

text \<open>
  C10.  For every input, the quicksort recorder returns a log in which every \<^verbatim>\<open>swap\<close>
  record has two different indices \<open>a \<noteq> b\<close>: the log never holds a self-swap.
\<close>

theorem qs_swap_events_distinct:
  "\<exists>evs. qs_record_events xs = Some evs \<and> (\<forall>e\<in>set evs. qs_swap_distinct e)"
proof -
  from qs_record_events_sim[of xs] obtain evs where
    "qs_record_events xs = Some evs" "list_all qs_swap_distinct evs" by blast
  then show ?thesis by (auto simp: list_all_iff)
qed

theorem qs_swap_events_distinct_witness:
  "\<exists>evs. qs_record_events [5, 3, 8, 4, 2 :: int] = Some evs
     \<and> list_all qs_swap_distinct evs
     \<and> QSwap [2, 3, 8, 4, 5] 1 4 4 2 3 \<in> set evs"
proof -
  from qs_swap_events_distinct[of "[5, 3, 8, 4, 2 :: int]"] obtain evs where
    e: "qs_record_events [5, 3, 8, 4, 2 :: int] = Some evs" and d: "\<forall>e\<in>set evs. qs_swap_distinct e"
    by blast
  have "case qs_record_events [5, 3, 8, 4, 2 :: int] of None \<Rightarrow> False
        | Some evs \<Rightarrow> List.member evs (QSwap [2, 3, 8, 4, 5] 1 4 4 2 3)"
    by code_simp
  with e have "QSwap [2, 3, 8, 4, 5] 1 4 4 2 3 \<in> set evs" by simp
  with e d show ?thesis by (auto simp: list_all_iff)
qed

end
